theory Spec2Isabelle
  imports Complex_Main
begin

section \<open>Strings\<close>

text \<open>
  Python strings are modelled as HOL strings (lists of 8-bit characters).
  \<open>str.lower\<close> is modelled on the ASCII letters; every other character is
  left as it is.
\<close>

definition lower_char :: "char \<Rightarrow> char" where
  "lower_char ch =
     (if of_char ch \<ge> (65::nat) \<and> of_char ch \<le> (90::nat)
      then char_of (of_char ch + (32::nat)) else ch)"

definition lower :: "string \<Rightarrow> string" where
  "lower s = map lower_char s"

text \<open>\<open>s.startswith(p)\<close>\<close>

definition startswith :: "string \<Rightarrow> string \<Rightarrow> bool" where
  "startswith s p = (take (length p) s = p)"

section \<open>The host's named-attribute containers\<close>

text \<open>
  A container (the vertex groups of a mesh, the bones of an armature) is the
  list of its members in the host's iteration order. A member is its name
  together with its payload (the per-vertex weights of a group, the transform
  of a bone). The identity of a member is its position in the list.

  The host (Blender's \<open>bpy\<close>) is not part of the repository; its operations
  are modelled as Blender performs them. Names are taken to be ASCII, one byte
  for every character.

  \<^item> A name is stored in a buffer of 64 bytes: the host keeps the first 63
    bytes of the name it is given, and takes its default name when it is given
    the empty one.
  \<^item> The host never rejects a name. When another member carries the name, it
    appends a number: it splits a trailing \<open>.digits\<close> off the name, and tries
    the numbers that follow, written with at least three digits (\<open>Arm\<close>
    becomes \<open>Arm.001\<close>, \<open>Arm.001\<close> becomes \<open>Arm.002\<close>), shortening the part
    before the number when the buffer is too small.
  \<^item> Lookup by name compares whole names.

  Errors leave the operator as exceptions: using a member that has been
  removed is the host's \<open>ReferenceError\<close>, calling a host function with an
  argument it does not take is Python's \<open>TypeError\<close>, asking an object for an
  attribute it does not have is \<open>AttributeError\<close>; \<open>IndexError\<close> and
  \<open>KeyError\<close> are raised by \<open>xs[0]\<close> on an empty list and \<open>d[k]\<close> on a missing
  key.
\<close>

datatype error = HostReferenceError | TypeError | AttributeError | IndexError | KeyError string

type_synonym 'a container = "(string \<times> 'a) list"

definition names :: "'a container \<Rightarrow> string list" where
  "names c = map fst c"

text \<open>\<open>target.get(name)\<close>: the first member carrying the name, or \<open>None\<close>.\<close>

fun get_member :: "'a container \<Rightarrow> string \<Rightarrow> nat option" where
  "get_member [] n = None"
| "get_member (m # c) n =
     (if fst m = n then Some 0 else map_option Suc (get_member c n))"

text \<open>A name the host stores as it is given: not empty, at most 63 bytes.\<close>

definition valid_name :: "string \<Rightarrow> bool" where
  "valid_name n \<longleftrightarrow> n \<noteq> [] \<and> length n \<le> 63"

text \<open>
  The host's split of a name into the part before a trailing \<open>.digits\<close> and
  the number the digits stand for. A name of more than one byte that ends with
  the dot, or that has no dot before its trailing digits, is not split.
\<close>

definition is_digit :: "char \<Rightarrow> bool" where
  "is_digit ch \<longleftrightarrow> (48::nat) \<le> of_char ch \<and> of_char ch \<le> (57::nat)"

definition number_of_digits :: "string \<Rightarrow> nat" where
  "number_of_digits ds = foldl (\<lambda>a ch. 10 * a + (of_char ch - 48)) 0 ds"

definition split_name_num :: "string \<Rightarrow> string \<times> nat" where
  "split_name_num name =
     (if length name > 1 \<and> last name = CHR ''.'' then (name, 0)
      else
        (case dropWhile is_digit (rev name) of
           [] \<Rightarrow> (name, 0)
         | ch # left_rev \<Rightarrow>
             if ch = CHR ''.''
             then (rev left_rev, number_of_digits (rev (takeWhile is_digit (rev name))))
             else (name, 0)))"

text \<open>The number \<open>k\<close> as the host appends it: a dot and at least three decimal digits.\<close>

fun digits_of :: "nat \<Rightarrow> string" where
  "digits_of n =
     (if n < 10 then [char_of (48 + n)]
      else digits_of (n div 10) @ [char_of (48 + n mod 10)])"

declare digits_of.simps [simp del]

definition number_suffix :: "nat \<Rightarrow> string" where
  "number_suffix k =
     CHR ''.'' # replicate (3 - length (digits_of k)) (CHR ''0'') @ digits_of k"

text \<open>
  The name the host tries for the number \<open>k\<close>: the part before the number, cut
  so that the name with its number and the closing byte fits the buffer, and
  the number.
\<close>

definition candidate_name :: "string \<Rightarrow> nat \<Rightarrow> string" where
  "candidate_name left k =
     (let numstr = number_suffix k in
      if left = [] \<or> length numstr + 1 \<ge> 64 then take 63 numstr
      else take (64 - (length numstr + 1) - 1) left @ numstr)"

text \<open>
  The name the host gives in place of \<open>name\<close> (already cut to the buffer) when
  the names \<open>taken\<close> are not free. The host tries the numbers after the one
  split off the name until a candidate is free; the candidates of different
  numbers differ, so one of the first \<open>length taken + 1\<close> is free.
\<close>

definition unique_name :: "string \<Rightarrow> string list \<Rightarrow> string \<Rightarrow> string" where
  "unique_name defname taken name =
     (let name1 = (if name = [] then take 63 defname else name) in
      if name1 \<notin> set taken then name1
      else
        (case split_name_num name1 of
           (left, number) \<Rightarrow>
             (case find (\<lambda>k. candidate_name left k \<notin> set taken)
                     [Suc number ..< Suc number + Suc (length taken)] of
                Some k \<Rightarrow> candidate_name left k
              | None \<Rightarrow> candidate_name left (Suc number + Suc (length taken)))))"

definition host_name :: "string \<Rightarrow> string list \<Rightarrow> string \<Rightarrow> string" where
  "host_name defname taken requested = unique_name defname taken (take 63 requested)"

text \<open>
  \<open>group.name = new_name\<close> for the vertex group at position \<open>i\<close>: the name
  is made unique among the other groups; the default name of a group is
  \<open>Group\<close>.
\<close>

definition set_name :: "'a container \<Rightarrow> nat \<Rightarrow> string \<Rightarrow> 'a container" where
  "set_name c i new_name =
     c[i := (host_name ''Group'' (take i (names c) @ drop (Suc i) (names c)) new_name,
             snd (c ! i))]"

section \<open>Mirror engine: \<open>mirror_names\<close>\<close>

text \<open>
  The loop building \<open>name_swap_pairs\<close>: \<open>names\<close> is the full list of names,
  the second argument the part of it still to be visited.
\<close>

fun name_swap_pairs :: "string list \<Rightarrow> string list \<Rightarrow> (string \<times> string) list" where
  "name_swap_pairs nms [] = []"
| "name_swap_pairs nms (name # rest) =
     (if startswith name ''L_'' then
        (let counterpart = ''R_'' @ drop 2 name in
         if counterpart \<in> set nms then (name, counterpart) # name_swap_pairs nms rest
         else name_swap_pairs nms rest)
      else if startswith name ''R_'' then
        (let counterpart = ''L_'' @ drop 2 name in
         if counterpart \<in> set nms then (name, counterpart) # name_swap_pairs nms rest
         else name_swap_pairs nms rest)
      else name_swap_pairs nms rest)"

text \<open>
  Each of the three swapping loops has the shape
  \<open>for ...: m = target.get(old); if m: m.name = new\<close>.
  \<open>rename_found\<close> runs such a loop over the list of its \<open>(old, new)\<close> pairs.
\<close>

fun rename_found :: "(string \<times> string) list \<Rightarrow> 'a container \<Rightarrow> 'a container" where
  "rename_found [] c = c"
| "rename_found ((old, new) # rs) c =
     (case get_member c old of
        None \<Rightarrow> rename_found rs c
      | Some i \<Rightarrow> rename_found rs (set_name c i new))"

text \<open>
  \<open>mirror_names(obj, is_bone=False)\<close>, on the vertex groups of a mesh. The
  same function on the bones of an armature is \<open>mirror_bone_names\<close> below.
\<close>

definition mirror_names :: "'a container \<Rightarrow> 'a container" where
  "mirror_names target =
     (let nms = names target;
          pairs = name_swap_pairs nms nms;
          t1 = rename_found (map (\<lambda>(name1, name2). (name1, ''__swap_temp__'' @ name2)) pairs) target;
          t2 = rename_found (map (\<lambda>(name1, name2). (name2, name1)) pairs) t1
      in rename_found (map (\<lambda>(name1, name2). (''__swap_temp__'' @ name2, name2)) pairs) t2)"

text \<open>
  The name a member is expected to carry after mirroring a container whose
  names are \<open>nms\<close>: the counterpart when it exists, its own name otherwise.
\<close>

definition mirrored_name :: "string list \<Rightarrow> string \<Rightarrow> string" where
  "mirrored_name nms n =
     (if startswith n ''L_'' \<and> ''R_'' @ drop 2 n \<in> set nms then ''R_'' @ drop 2 n
      else if startswith n ''R_'' \<and> ''L_'' @ drop 2 n \<in> set nms then ''L_'' @ drop 2 n
      else n)"

text \<open>A single rename of the member called \<open>old\<close>, as a map over the container.\<close>

definition rename1 :: "string \<Rightarrow> string \<Rightarrow> 'a container \<Rightarrow> 'a container" where
  "rename1 old new c = map (\<lambda>(n, p). (if n = old then new else n, p)) c"

text \<open>The renaming a list of \<open>(old, new)\<close> pairs stands for: the first pair of a name decides.\<close>

definition rename_map :: "(string \<times> string) list \<Rightarrow> string \<Rightarrow> string" where
  "rename_map rs n = (case map_of rs n of None \<Rightarrow> n | Some m \<Rightarrow> m)"

text \<open>A name is paired when its left/right counterpart is among the names.\<close>

definition is_paired :: "string list \<Rightarrow> string \<Rightarrow> bool" where
  "is_paired nms n \<longleftrightarrow>
     (startswith n ''L_'' \<and> ''R_'' @ drop 2 n \<in> set nms) \<or>
     (startswith n ''R_'' \<and> ''L_'' @ drop 2 n \<in> set nms)"

text \<open>
  The \<open>(old, new)\<close> pairs of the three swapping loops, for a container whose
  names are \<open>nms\<close>.
\<close>

definition to_temp_pairs :: "string list \<Rightarrow> (string \<times> string) list" where
  "to_temp_pairs nms =
     map (\<lambda>(name1, name2). (name1, ''__swap_temp__'' @ name2)) (name_swap_pairs nms nms)"

definition second_pairs :: "string list \<Rightarrow> (string \<times> string) list" where
  "second_pairs nms = map (\<lambda>(name1, name2). (name2, name1)) (name_swap_pairs nms nms)"

definition from_temp_pairs :: "string list \<Rightarrow> (string \<times> string) list" where
  "from_temp_pairs nms =
     map (\<lambda>(name1, name2). (''__swap_temp__'' @ name2, name2)) (name_swap_pairs nms nms)"

section \<open>Rule store\<close>

text \<open>
  A Python \<open>dict\<close> keeps its keys in insertion order; it is modelled as an
  association list whose keys are distinct. \<open>d[k] = v\<close> replaces the value in
  place when the key is present and appends the entry otherwise; \<open>d[k]\<close> and
  \<open>k in d\<close> are \<open>map_of d k\<close>.
\<close>

fun dict_set :: "('k \<times> 'v) list \<Rightarrow> 'k \<Rightarrow> 'v \<Rightarrow> ('k \<times> 'v) list" where
  "dict_set [] k v = [(k, v)]"
| "dict_set ((k', v') # d) k v =
     (if k' = k then (k, v) # d else (k', v') # dict_set d k v)"

text \<open>\<open>del d[k]\<close>, for a key that is present.\<close>

fun dict_del :: "('k \<times> 'v) list \<Rightarrow> 'k \<Rightarrow> ('k \<times> 'v) list" where
  "dict_del [] k = []"
| "dict_del ((k', v') # d) k = (if k' = k then d else (k', v') # dict_del d k)"

text \<open>A ruleset maps old names to new names; a preset maps prefixes to rulesets.\<close>

type_synonym ruleset = "(string \<times> string) list"
type_synonym preset = "(string \<times> ruleset) list"

text \<open>
  \<open>rename_key_in_ordered_dict\<close>: the loop over the keys of \<open>d\<close>, with the
  dictionary \<open>new_dict\<close> built so far.
\<close>

fun rename_key_loop :: "(string \<times> 'v) list \<Rightarrow> string \<Rightarrow> string \<Rightarrow> (string \<times> 'v) list \<Rightarrow> (string \<times> 'v) list" where
  "rename_key_loop [] old_key new_key new_dict = new_dict"
| "rename_key_loop ((k, v) # rest) old_key new_key new_dict =
     (if k = old_key then rename_key_loop rest old_key new_key (dict_set new_dict new_key v)
      else rename_key_loop rest old_key new_key (dict_set new_dict k v))"

definition rename_key_in_ordered_dict :: "(string \<times> 'v) list \<Rightarrow> string \<Rightarrow> string \<Rightarrow> (string \<times> 'v) list" where
  "rename_key_in_ordered_dict d old_key new_key = rename_key_loop d old_key new_key []"

text \<open>
  The update callback \<open>update_rule\<close> of one rule \<open>original \<rightarrow> new\<close> of the ruleset
  \<open>presets[current_preset][prefix]\<close>. The two edit fields hold \<open>new_original\<close>
  and \<open>new_new\<close> when it runs. The callback is registered on \<open>bpy.types.Scene\<close>
  (\<open>setattr(bpy.types.Scene, original_prop, ...)\<close>), so its \<open>self\<close> is the scene,
  and a scene has no \<open>report\<close>: on the duplicate path \<open>self.report\<close> raises
  \<open>AttributeError\<close> before the two \<open>setattr\<close> that would restore the edit
  fields. The result is the ruleset and the two edit fields the callback
  leaves, and the exception it raises, if any. Saving the presets to disk and
  redrawing are not modelled.
\<close>

record rule_edit =
  edited_rules :: ruleset
  original_prop :: string
  new_prop :: string
  raised :: "error option"

definition update_rule :: "string \<Rightarrow> string \<Rightarrow> string \<Rightarrow> ruleset \<Rightarrow> string \<Rightarrow> string \<Rightarrow> rule_edit" where
  "update_rule prefix original new d new_original new_new =
     (if new_original \<noteq> original \<or> new_new \<noteq> new then
        if map_of d new_original \<noteq> None \<and> new_original \<noteq> original then
          \<lparr>edited_rules = d, original_prop = new_original, new_prop = new_new,
           raised = Some AttributeError\<rparr>
        else
          \<lparr>edited_rules = dict_set (rename_key_in_ordered_dict d original new_original) new_original new_new,
           original_prop = new_original, new_prop = new_new, raised = None\<rparr>
      else \<lparr>edited_rules = d, original_prop = new_original, new_prop = new_new, raised = None\<rparr>)"

text \<open>
  The rule store: the global \<open>presets\<close> together with the scene properties
  \<open>current_preset\<close> and \<open>preset_dropdown\<close>.
\<close>

record store =
  presets :: "(string \<times> preset) list"
  current_preset :: string
  preset_dropdown :: string

datatype status = FINISHED | CANCELLED

datatype level = INFO | WARNING | ERROR

type_synonym report = "level \<times> string"

text \<open>
  \<open>OBJECT_OT_remove_preset.execute\<close>. Assigning \<open>preset_dropdown\<close> runs
  \<open>preset_update\<close>, which sets \<open>current_preset\<close>.
\<close>

definition remove_preset_execute :: "store \<Rightarrow> status \<times> report list \<times> store" where
  "remove_preset_execute st =
     (let current = current_preset st in
      if map_of (presets st) current \<noteq> None then
        if current = ''Default'' then
          (CANCELLED, [(WARNING, ''Cannot delete the Default preset.'')], st)
        else if length (presets st) = 1 then
          (CANCELLED, [(WARNING, ''Cannot remove the last preset.'')], st)
        else
          (let presets' = dict_del (presets st) current;
               new_preset = fst (hd presets')
           in (FINISHED, [],
               st\<lparr>presets := presets', preset_dropdown := new_preset, current_preset := new_preset\<rparr>))
      else (FINISHED, [(WARNING, ''No preset selected or preset does not exist'')], st))"

section \<open>Prefix resolver\<close>

text \<open>
  The loop over \<open>current_rules.keys()\<close> with its \<open>break\<close>: the first
  non-empty prefix that the lower-cased object name starts with, once the
  prefix is lower-cased too.
\<close>

fun first_prefix_match :: "string \<Rightarrow> string list \<Rightarrow> string option" where
  "first_prefix_match obj_name_lower [] = None"
| "first_prefix_match obj_name_lower (prefix # rest) =
     (if prefix \<noteq> '''' \<and> startswith obj_name_lower (lower prefix) then Some prefix
      else first_prefix_match obj_name_lower rest)"

definition matched_prefix :: "string \<Rightarrow> (string \<times> 'r) list \<Rightarrow> string option" where
  "matched_prefix obj_name current_rules =
     (let obj_name_lower = lower obj_name;
          matched = first_prefix_match obj_name_lower (map fst current_rules)
      in if matched = None \<and> map_of current_rules '''' \<noteq> None then Some '''' else matched)"

text \<open>A prefix is a case-insensitive prefix of a name.\<close>

definition ci_prefix :: "string \<Rightarrow> string \<Rightarrow> bool" where
  "ci_prefix prefix obj_name = startswith (lower obj_name) (lower prefix)"

section \<open>Weighted groups and joints\<close>

text \<open>
  A vertex group holds the weights of the vertices assigned to it, as a
  dictionary from vertex index to weight. \<open>group.weight(i)\<close> raises
  \<open>RuntimeError\<close> for a vertex that is not in the group; the code catches it
  and takes 0.0.

  Weights are modelled as real numbers: the rounding of floating-point
  arithmetic is not modelled. The host keeps every weight between 0.0 and
  1.0: it clamps the weight it is given, and the weight it stores.
\<close>

type_synonym wgroup = "(nat \<times> real) list"

definition weight_or_zero :: "wgroup \<Rightarrow> nat \<Rightarrow> real" where
  "weight_or_zero g i = (case map_of g i of None \<Rightarrow> 0 | Some w \<Rightarrow> w)"

definition clamp01 :: "real \<Rightarrow> real" where
  "clamp01 w = max 0 (min 1 w)"

text \<open>\<open>group.add([i], w, 'ADD')\<close> and \<open>group.add([i], w, 'REPLACE')\<close>.\<close>

definition add_ADD :: "wgroup \<Rightarrow> nat \<Rightarrow> real \<Rightarrow> wgroup" where
  "add_ADD g i w = dict_set g i (clamp01 (weight_or_zero g i + clamp01 w))"

definition add_REPLACE :: "wgroup \<Rightarrow> nat \<Rightarrow> real \<Rightarrow> wgroup" where
  "add_REPLACE g i w = dict_set g i (clamp01 w)"


text \<open>A bone carries its head, tail and roll.\<close>

type_synonym vec = "real \<times> real \<times> real"

record bone_data =
  head :: vec
  tail :: vec
  roll :: real

definition new_bone_data :: bone_data where
  "new_bone_data = \<lparr>head = (0, 0, 0), tail = (0, 0, 0), roll = 0\<rparr>"

text \<open>
  \<open>vertex_groups.new(name=nm)\<close> appends a group, under the name the host makes
  of \<open>nm\<close>; \<open>collection.remove(member)\<close> drops the member at a position.
\<close>

definition new_member :: "'a container \<Rightarrow> string \<Rightarrow> 'a \<Rightarrow> 'a container" where
  "new_member c nm payload = c @ [(host_name ''Group'' (names c) nm, payload)]"

definition remove_at :: "'a container \<Rightarrow> nat \<Rightarrow> 'a container" where
  "remove_at c i = take i c @ drop (Suc i) c"

text \<open>The loop \<open>for name in source_names: m = get(name); if m: remove(m)\<close>.\<close>

fun remove_sources :: "string list \<Rightarrow> 'a container \<Rightarrow> 'a container" where
  "remove_sources [] c = c"
| "remove_sources (group_name # rest) c =
     (case get_member c group_name of
        None \<Rightarrow> remove_sources rest c
      | Some i \<Rightarrow> remove_sources rest (remove_at c i))"

section \<open>Consolidation engine: merging vertex groups\<close>

text \<open>
  The accumulation of \<open>vertex_weight_sum\<close>: the inner loop over the vertices
  of one source group, and the outer loop over the source group names. The
  vertices of a mesh with \<open>n\<close> vertices have the indices \<open>0, ..., n - 1\<close>.
\<close>

fun accumulate_group :: "wgroup \<Rightarrow> nat list \<Rightarrow> (nat \<times> real) list \<Rightarrow> (nat \<times> real) list" where
  "accumulate_group g [] vertex_weight_sum = vertex_weight_sum"
| "accumulate_group g (v # vs) vertex_weight_sum =
     (let weight = weight_or_zero g v in
      case map_of vertex_weight_sum v of
        Some s \<Rightarrow> accumulate_group g vs (dict_set vertex_weight_sum v (s + weight))
      | None \<Rightarrow> accumulate_group g vs (dict_set vertex_weight_sum v weight))"

fun accumulate_sources :: "wgroup container \<Rightarrow> nat list \<Rightarrow> string list \<Rightarrow> (nat \<times> real) list \<Rightarrow> (nat \<times> real) list" where
  "accumulate_sources c vs [] vertex_weight_sum = vertex_weight_sum"
| "accumulate_sources c vs (group_name # rest) vertex_weight_sum =
     (case get_member c group_name of
        None \<Rightarrow> accumulate_sources c vs rest vertex_weight_sum
      | Some i \<Rightarrow> accumulate_sources c vs rest (accumulate_group (snd (c ! i)) vs vertex_weight_sum))"

text \<open>Assigning the summed weights to the temporary group.\<close>

fun assign_sums :: "(nat \<times> real) list \<Rightarrow> wgroup \<Rightarrow> wgroup" where
  "assign_sums [] temp_group = temp_group"
| "assign_sums ((v_index, weight) # rest) temp_group =
     assign_sums rest (add_ADD temp_group v_index weight)"

text \<open>
  The part of \<open>merge_vertex_groups\<close> before its normalization step, for a
  non-empty list of source names. The temporary group is created as the last
  member and stays the last one while the source groups are removed; when the
  name the host gave it is among the sources it has been removed before it is
  renamed.
\<close>

definition merge_groups :: "nat \<Rightarrow> wgroup container \<Rightarrow> string \<Rightarrow> string list \<Rightarrow> error + wgroup container" where
  "merge_groups nverts c target_group_name source_group_names =
     (let temp_group_name = ''__temp_merge_'' @ target_group_name @ ''__'';
          c1 = new_member c temp_group_name [];
          t = length c;
          vertex_weight_sum = accumulate_sources c1 [0..<nverts] source_group_names [];
          c2 = c1[t := (fst (c1 ! t), assign_sums vertex_weight_sum (snd (c1 ! t)))];
          c3 = remove_sources source_group_names c2
      in if fst (c1 ! t) \<in> set source_group_names then Inl HostReferenceError
         else Inr (set_name c3 (length c3 - 1) target_group_name))"

text \<open>
  The normalization step: for one vertex, the total of its weights over all
  groups, accumulated from 0.0 in the order of the groups, and the rescaling
  of every group when the total exceeds 1.0.
\<close>

definition total_weight :: "wgroup container \<Rightarrow> nat \<Rightarrow> real" where
  "total_weight c v = fold (\<lambda>vg total. total + weight_or_zero (snd vg) v) c 0"

definition normalize_vertex :: "wgroup container \<Rightarrow> nat \<Rightarrow> wgroup container" where
  "normalize_vertex c v =
     (let total = total_weight c v in
      if total > 1 then map (\<lambda>(n, g). (n, add_REPLACE g v (weight_or_zero g v / total))) c
      else c)"

definition normalize_weights :: "nat \<Rightarrow> wgroup container \<Rightarrow> wgroup container" where
  "normalize_weights nverts c = fold (\<lambda>v c'. normalize_vertex c' v) [0..<nverts] c"

text \<open>
  What an operator run leaves behind besides the renamed containers: the lines
  it prints before a merge and before a rename, and one mark for every run of
  the normalization loop of \<open>merge_vertex_groups\<close> (the loop prints nothing; the
  mark records that it ran).
\<close>

datatype event =
    Merging string "string list"
  | Renaming string string
  | NormalizationPass

definition merge_vertex_groups :: "nat \<Rightarrow> wgroup container \<Rightarrow> string \<Rightarrow> string list \<Rightarrow> error + (wgroup container \<times> event list)" where
  "merge_vertex_groups nverts c target_group_name source_group_names =
     (if source_group_names = [] then Inr (c, [])
      else case merge_groups nverts c target_group_name source_group_names of
             Inl e \<Rightarrow> Inl e
           | Inr c' \<Rightarrow> Inr (normalize_weights nverts c', [NormalizationPass]))"

section \<open>Consolidation engine: applying a ruleset\<close>

text \<open>
  The loop building \<open>new_to_sources\<close>: every current name that is a key of the
  ruleset is put in the bucket of its new name.
\<close>

fun group_by_target :: "ruleset \<Rightarrow> string list \<Rightarrow> (string \<times> string list) list \<Rightarrow> (string \<times> string list) list" where
  "group_by_target rules [] new_to_sources = new_to_sources"
| "group_by_target rules (name # rest) new_to_sources =
     (case map_of rules name of
        None \<Rightarrow> group_by_target rules rest new_to_sources
      | Some new_name \<Rightarrow>
          (case map_of new_to_sources new_name of
             Some sources \<Rightarrow>
               group_by_target rules rest (dict_set new_to_sources new_name (sources @ [name]))
           | None \<Rightarrow>
               group_by_target rules rest (dict_set new_to_sources new_name [name])))"

text \<open>
  The loop over the buckets, for vertex groups: a bucket of two or more
  sources is merged, a bucket of one source is a rename when the name differs.
\<close>

fun apply_group_buckets :: "nat \<Rightarrow> (string \<times> string list) list \<Rightarrow> wgroup container \<times> event list \<Rightarrow> error + (wgroup container \<times> event list)" where
  "apply_group_buckets nverts [] st = Inr st"
| "apply_group_buckets nverts ((new_name, source_names) # rest) (c, trace) =
     (if length source_names > 1 then
        (case merge_vertex_groups nverts c new_name source_names of
           Inl e \<Rightarrow> Inl e
         | Inr (c', marks) \<Rightarrow>
             apply_group_buckets nverts rest (c', trace @ [Merging new_name source_names] @ marks))
      else
        (case source_names of
           [] \<Rightarrow> Inl IndexError
         | old_name # _ \<Rightarrow>
             (case get_member c old_name of
                None \<Rightarrow> apply_group_buckets nverts rest (c, trace)
              | Some i \<Rightarrow>
                  if fst (c ! i) \<noteq> new_name then
                    apply_group_buckets nverts rest
                      (set_name c i new_name, trace @ [Renaming old_name new_name])
                  else apply_group_buckets nverts rest (c, trace))))"

definition apply_rules_groups :: "nat \<Rightarrow> ruleset \<Rightarrow> wgroup container \<Rightarrow> error + (wgroup container \<times> event list)" where
  "apply_rules_groups nverts rules c =
     apply_group_buckets nverts (group_by_target rules (names c) []) (c, [])"

text \<open>
  The body of the loop over the selected meshes: resolve the prefix against
  the mesh's name and apply the ruleset found, or leave the container alone.
\<close>

definition rename_groups_of :: "preset \<Rightarrow> string \<Rightarrow> nat \<Rightarrow> wgroup container \<Rightarrow> error + (wgroup container \<times> event list)" where
  "rename_groups_of current_rules obj_name nverts c =
     (case matched_prefix obj_name current_rules of
        None \<Rightarrow> Inr (c, [])
      | Some prefix \<Rightarrow>
          (case map_of current_rules prefix of
             None \<Rightarrow> Inl (KeyError prefix)
           | Some rules \<Rightarrow> apply_rules_groups nverts rules c))"

section \<open>Undo engine\<close>

text \<open>
  \<open>reverse_rules = {new_name: original_name for original_name, new_name in rules.items()}\<close>
\<close>

definition reverse_rules :: "ruleset \<Rightarrow> ruleset" where
  "reverse_rules rules =
     fold (\<lambda>(original_name, new_name) reverse. dict_set reverse new_name original_name) rules []"

text \<open>
  The loop over the vertex groups, by position: a group whose current name is
  a key of \<open>reverse_rules\<close> gets the recorded name.
\<close>

fun undo_loop :: "ruleset \<Rightarrow> nat list \<Rightarrow> 'a container \<Rightarrow> 'a container" where
  "undo_loop reverse [] c = c"
| "undo_loop reverse (i # rest) c =
     (case map_of reverse (fst (c ! i)) of
        None \<Rightarrow> undo_loop reverse rest c
      | Some original_name \<Rightarrow> undo_loop reverse rest (set_name c i original_name))"

definition undo_rules :: "ruleset \<Rightarrow> 'a container \<Rightarrow> 'a container" where
  "undo_rules rules c = undo_loop (reverse_rules rules) [0..<length c] c"

definition undo_of :: "preset \<Rightarrow> string \<Rightarrow> 'a container \<Rightarrow> error + 'a container" where
  "undo_of current_rules obj_name c =
     (case matched_prefix obj_name current_rules of
        None \<Rightarrow> Inr c
      | Some prefix \<Rightarrow>
          (case map_of current_rules prefix of
             None \<Rightarrow> Inl (KeyError prefix)
           | Some rules \<Rightarrow> Inr (undo_rules rules c)))"

section \<open>Auxiliary notions for the consolidation and undo engines\<close>

text \<open>
  The buckets of an injective ruleset: one bucket, of one source, for every
  name that is a key.
\<close>

definition singleton_buckets :: "ruleset \<Rightarrow> string list \<Rightarrow> (string \<times> string list) list" where
  "singleton_buckets rules ns =
     concat (map (\<lambda>n. case map_of rules n of None \<Rightarrow> [] | Some t \<Rightarrow> [(t, [n])]) ns)"

text \<open>The renames these buckets stand for; a rule onto the same name renames nothing.\<close>

definition rename_pairs :: "ruleset \<Rightarrow> string list \<Rightarrow> (string \<times> string) list" where
  "rename_pairs rules ns =
     concat (map (\<lambda>n. case map_of rules n of None \<Rightarrow> [] | Some t \<Rightarrow> if n = t then [] else [(n, t)]) ns)"

text \<open>The name a ruleset gives to a name: its new name, or the name itself when it is no key.\<close>

definition fwd_name :: "ruleset \<Rightarrow> string \<Rightarrow> string" where
  "fwd_name rules n = (case map_of rules n of None \<Rightarrow> n | Some t \<Rightarrow> t)"


text \<open>The entries of a trace that belong to merges.\<close>

definition is_merge_mark :: "event \<Rightarrow> bool" where
  "is_merge_mark e = (case e of Merging _ _ \<Rightarrow> True | NormalizationPass \<Rightarrow> True | _ \<Rightarrow> False)"

text \<open>A bucket of two or more sources is merged.\<close>

definition is_merge_bucket :: "string \<times> string list \<Rightarrow> bool" where
  "is_merge_bucket b = (length (snd b) > 1)"

section \<open>Synchronization coordinator\<close>

text \<open>
  The scene: \<open>bpy.data.objects\<close> as a list, an object being referred to by its
  position in it; the selected objects; and the scene property
  \<open>sync_group_bone\<close>. A mesh carries its modifiers, its vertex groups and the
  number of its vertices, an armature its bones.

  An armature is identified with its armature data: two armature objects
  sharing one data block are not modelled.
\<close>

datatype object_type = MESH | ARMATURE | OTHER_TYPE

datatype modifier_type = ARMATURE_MODIFIER | OTHER_MODIFIER

record modifier =
  mod_type :: modifier_type
  mod_object :: "nat option"

record object =
  ob_name :: string
  ob_type :: object_type
  ob_modifiers :: "modifier list"
  ob_vertex_groups :: "wgroup container"
  ob_nverts :: nat
  ob_bones :: "bone_data container"

record scene =
  scene_objects :: "object list"
  selected_objects :: "nat list"
  sync_group_bone :: bool

section \<open>Bones\<close>

text \<open>
  \<open>bone.name = new_name\<close> for the bone at position \<open>i\<close> of an armature. The
  host does nothing when the name, cut to 63 bytes, is the name the bone
  carries. Otherwise it makes the name unique among the bones of the armature
  (the default name of a bone is \<open>Bone\<close>), renames the bone, and renames with
  it, in every object that an armature modifier binds to the armature, the
  vertex group carrying the old name of the bone: the group gets the new
  name of the bone as it is.
\<close>

definition uses_armature :: "object \<Rightarrow> nat \<Rightarrow> bool" where
  "uses_armature ob armature =
     list_ex (\<lambda>m. mod_type m = ARMATURE_MODIFIER \<and> mod_object m = Some armature) (ob_modifiers ob)"

fun rename_first :: "string \<Rightarrow> string \<Rightarrow> 'a container \<Rightarrow> 'a container" where
  "rename_first old new [] = []"
| "rename_first old new (m # c) =
     (if fst m = old then (new, snd m) # c else m # rename_first old new c)"

definition propagate_bone_rename :: "nat \<Rightarrow> string \<Rightarrow> string \<Rightarrow> object list \<Rightarrow> object list" where
  "propagate_bone_rename armature old new objs =
     map (\<lambda>ob. if uses_armature ob armature
               then ob\<lparr>ob_vertex_groups := rename_first old new (ob_vertex_groups ob)\<rparr>
               else ob) objs"

definition set_bone_name :: "object list \<Rightarrow> nat \<Rightarrow> nat \<Rightarrow> string \<Rightarrow> object list" where
  "set_bone_name objs armature i new_name =
     (let bones = ob_bones (objs ! armature);
          oldname = fst (bones ! i);
          newname = take 63 new_name
      in if newname = oldname then objs
         else
           (let actual = unique_name ''Bone'' (names bones) newname;
                objs1 = objs[armature := (objs ! armature)\<lparr>ob_bones := bones[i := (actual, snd (bones ! i))]\<rparr>]
            in propagate_bone_rename armature oldname actual objs1))"

text \<open>
  \<open>merge_bones\<close>, for the armature at position \<open>armature\<close>. The temporary bone
  is created under the name the host makes of \<open>temp_bone_name\<close> and takes the
  head, tail and roll of the first source bone. The loop over the source bones
  calls \<open>edit_bones.remove(bone, do_unlink=True)\<close> for the first source bone it
  finds; the host's \<open>remove\<close> takes the bone and nothing else, so the call
  raises \<open>TypeError\<close>, which leaves the operator: the bones it leaves behind
  (the temporary bone, the source bones) are not part of the result. Without
  a source bone to remove, the temporary bone is renamed to the target name.
  Switching between edit mode and object mode is not modelled.
\<close>

definition merge_bones :: "object list \<Rightarrow> nat \<Rightarrow> string \<Rightarrow> string list \<Rightarrow> error + object list" where
  "merge_bones objs armature target_bone_name source_bone_names =
     (case source_bone_names of
        [] \<Rightarrow> Inr objs
      | first_name # _ \<Rightarrow>
          (let edit_bones = ob_bones (objs ! armature);
               temp_bone_name = ''__temp_merge_'' @ target_bone_name @ ''__'';
               t = length edit_bones;
               c1 = edit_bones @ [(host_name ''Bone'' (names edit_bones) temp_bone_name, new_bone_data)];
               c2 = (case get_member c1 first_name of
                       None \<Rightarrow> c1
                     | Some i \<Rightarrow> c1[t := (fst (c1 ! t), snd (c1 ! i))])
           in if list_ex (\<lambda>bone_name. get_member c2 bone_name \<noteq> None) source_bone_names
              then Inl TypeError
              else Inr (set_bone_name (objs[armature := (objs ! armature)\<lparr>ob_bones := c2\<rparr>])
                          armature t target_bone_name)))"

text \<open>
  The loop over the buckets, for the bones of an armature: a bucket of two or
  more sources is merged, a bucket of one source is a rename when the name
  differs.
\<close>

fun apply_bone_buckets :: "nat \<Rightarrow> (string \<times> string list) list \<Rightarrow> object list \<times> event list \<Rightarrow> error + (object list \<times> event list)" where
  "apply_bone_buckets armature [] st = Inr st"
| "apply_bone_buckets armature ((new_bone_name, source_bone_names) # rest) (objs, trace) =
     (if length source_bone_names > 1 then
        (case merge_bones objs armature new_bone_name source_bone_names of
           Inl e \<Rightarrow> Inl e
         | Inr objs' \<Rightarrow>
             apply_bone_buckets armature rest (objs', trace @ [Merging new_bone_name source_bone_names]))
      else
        (case source_bone_names of
           [] \<Rightarrow> Inl IndexError
         | old_bone_name # _ \<Rightarrow>
             (case get_member (ob_bones (objs ! armature)) old_bone_name of
                None \<Rightarrow> apply_bone_buckets armature rest (objs, trace)
              | Some i \<Rightarrow>
                  if fst (ob_bones (objs ! armature) ! i) \<noteq> new_bone_name then
                    apply_bone_buckets armature rest
                      (set_bone_name objs armature i new_bone_name,
                       trace @ [Renaming old_bone_name new_bone_name])
                  else apply_bone_buckets armature rest (objs, trace))))"

definition apply_rules_bones :: "ruleset \<Rightarrow> nat \<Rightarrow> object list \<Rightarrow> error + (object list \<times> event list)" where
  "apply_rules_bones rules armature objs =
     apply_bone_buckets armature
       (group_by_target rules (names (ob_bones (objs ! armature))) []) (objs, [])"

text \<open>
  The body of the loops over armatures: resolve the prefix against a name
  (the armature's, or the name of a mesh linked to it) and apply the ruleset
  found to the bones of the armature, or leave them alone.
\<close>

definition rename_bones_of :: "preset \<Rightarrow> string \<Rightarrow> nat \<Rightarrow> object list \<Rightarrow> error + (object list \<times> event list)" where
  "rename_bones_of current_rules obj_name armature objs =
     (case matched_prefix obj_name current_rules of
        None \<Rightarrow> Inr (objs, [])
      | Some prefix \<Rightarrow>
          (case map_of current_rules prefix of
             None \<Rightarrow> Inl (KeyError prefix)
           | Some rules \<Rightarrow> apply_rules_bones rules armature objs))"

text \<open>The undo loop over the bones of an armature, by position.\<close>

fun undo_bones_loop :: "ruleset \<Rightarrow> nat \<Rightarrow> nat list \<Rightarrow> object list \<Rightarrow> object list" where
  "undo_bones_loop reverse armature [] objs = objs"
| "undo_bones_loop reverse armature (i # rest) objs =
     (case map_of reverse (fst (ob_bones (objs ! armature) ! i)) of
        None \<Rightarrow> undo_bones_loop reverse armature rest objs
      | Some original_name \<Rightarrow>
          undo_bones_loop reverse armature rest (set_bone_name objs armature i original_name))"

definition undo_bones_of :: "preset \<Rightarrow> string \<Rightarrow> nat \<Rightarrow> object list \<Rightarrow> error + object list" where
  "undo_bones_of current_rules obj_name armature objs =
     (case matched_prefix obj_name current_rules of
        None \<Rightarrow> Inr objs
      | Some prefix \<Rightarrow>
          (case map_of current_rules prefix of
             None \<Rightarrow> Inl (KeyError prefix)
           | Some rules \<Rightarrow>
               Inr (undo_bones_loop (reverse_rules rules) armature
                      [0..<length (ob_bones (objs ! armature))] objs)))"

text \<open>
  \<open>mirror_names(obj, is_bone=True)\<close>: the three swapping loops on the bones of
  an armature.
\<close>

fun rename_found_bones :: "nat \<Rightarrow> (string \<times> string) list \<Rightarrow> object list \<Rightarrow> object list" where
  "rename_found_bones armature [] objs = objs"
| "rename_found_bones armature ((old, new) # rs) objs =
     (case get_member (ob_bones (objs ! armature)) old of
        None \<Rightarrow> rename_found_bones armature rs objs
      | Some i \<Rightarrow> rename_found_bones armature rs (set_bone_name objs armature i new))"

definition mirror_bone_names :: "nat \<Rightarrow> object list \<Rightarrow> object list" where
  "mirror_bone_names armature objs =
     (let nms = names (ob_bones (objs ! armature));
          pairs = name_swap_pairs nms nms;
          o1 = rename_found_bones armature (map (\<lambda>(name1, name2). (name1, ''__swap_temp__'' @ name2)) pairs) objs;
          o2 = rename_found_bones armature (map (\<lambda>(name1, name2). (name2, name1)) pairs) o1
      in rename_found_bones armature (map (\<lambda>(name1, name2). (''__swap_temp__'' @ name2, name2)) pairs) o2)"

section \<open>The operators\<close>

text \<open>\<open>[obj for obj in bpy.context.selected_objects if obj.type == ty]\<close>\<close>

definition selected_of_type :: "scene \<Rightarrow> object_type \<Rightarrow> nat list" where
  "selected_of_type sc ty =
     filter (\<lambda>i. ob_type (scene_objects sc ! i) = ty) (selected_objects sc)"

text \<open>\<open>presets.get(current_preset, {})\<close>\<close>

definition current_rules_of :: "store \<Rightarrow> preset" where
  "current_rules_of st =
     (case map_of (presets st) (current_preset st) of None \<Rightarrow> [] | Some r \<Rightarrow> r)"

text \<open>\<open>sep.join(xs)\<close>\<close>

fun join :: "string \<Rightarrow> string list \<Rightarrow> string" where
  "join sep [] = []"
| "join sep [x] = x"
| "join sep (x # y # ys) = x @ sep @ join sep (y # ys)"

text \<open>
  \<open>get_armatures_from_meshes\<close>: the armatures in the modifiers of one mesh,
  and the dictionary from meshes to a single armature or to a list of several.
\<close>

datatype armature_link = Single nat | Several "nat list"

definition armatures_of_mesh :: "object list \<Rightarrow> nat \<Rightarrow> nat list" where
  "armatures_of_mesh objs mesh =
     concat (map (\<lambda>m.
        if mod_type m = ARMATURE_MODIFIER then
          (case mod_object m of
             None \<Rightarrow> []
           | Some a \<Rightarrow> if ob_type (objs ! a) = ARMATURE then [a] else [])
        else [])
      (ob_modifiers (objs ! mesh)))"

fun get_armatures_loop :: "object list \<Rightarrow> nat list \<Rightarrow> (nat \<times> armature_link) list \<Rightarrow> (nat \<times> armature_link) list" where
  "get_armatures_loop objs [] mesh_to_armature = mesh_to_armature"
| "get_armatures_loop objs (mesh # rest) mesh_to_armature =
     (let armatures = armatures_of_mesh objs mesh in
      if length armatures > 1 then
        get_armatures_loop objs rest (dict_set mesh_to_armature mesh (Several armatures))
      else if length armatures = 1 then
        get_armatures_loop objs rest (dict_set mesh_to_armature mesh (Single (hd armatures)))
      else get_armatures_loop objs rest mesh_to_armature)"

definition get_armatures_from_meshes :: "object list \<Rightarrow> nat list \<Rightarrow> (nat \<times> armature_link) list" where
  "get_armatures_from_meshes objs meshes = get_armatures_loop objs meshes []"

text \<open>
  \<open>get_meshes_from_armatures\<close>: a mesh is listed once for every armature
  modifier of it that refers to the armature.
\<close>

definition meshes_of_armature :: "object list \<Rightarrow> nat \<Rightarrow> nat list" where
  "meshes_of_armature objs armature =
     concat (map (\<lambda>i.
        if ob_type (objs ! i) = MESH then
          concat (map (\<lambda>m.
             if mod_type m = ARMATURE_MODIFIER \<and> mod_object m = Some armature then [i] else [])
           (ob_modifiers (objs ! i)))
        else [])
      [0..<length objs])"

fun get_meshes_loop :: "object list \<Rightarrow> nat list \<Rightarrow> (nat \<times> nat list) list \<Rightarrow> (nat \<times> nat list) list" where
  "get_meshes_loop objs [] armature_to_meshes = armature_to_meshes"
| "get_meshes_loop objs (armature # rest) armature_to_meshes =
     (let meshes = meshes_of_armature objs armature in
      if meshes \<noteq> [] then get_meshes_loop objs rest (dict_set armature_to_meshes armature meshes)
      else get_meshes_loop objs rest armature_to_meshes)"

definition get_meshes_from_armatures :: "object list \<Rightarrow> nat list \<Rightarrow> (nat \<times> nat list) list" where
  "get_meshes_from_armatures objs armatures = get_meshes_loop objs armatures []"

text \<open>
  The check at the head of the three operators on meshes: the selected meshes
  with several armatures, and the error report that names them.
\<close>

definition is_Several :: "armature_link \<Rightarrow> bool" where
  "is_Several l = (case l of Several _ \<Rightarrow> True | Single _ \<Rightarrow> False)"

definition meshes_with_multiple_armatures :: "object list \<Rightarrow> nat list \<Rightarrow> nat list" where
  "meshes_with_multiple_armatures objs selected_meshes =
     map fst (filter (\<lambda>(mesh, armatures). is_Several armatures)
       (get_armatures_from_meshes objs selected_meshes))"

definition multiple_armatures_report :: "object list \<Rightarrow> nat list \<Rightarrow> report" where
  "multiple_armatures_report objs meshes =
     (ERROR, ''Meshes with multiple armatures detected: ''
        @ join '', '' (map (\<lambda>mesh. ob_name (objs ! mesh)) meshes)
        @ ''. Cannot synchronize.'')"

text \<open>
  \<open>list(set(mesh_to_single_armature.values()))\<close>: the armatures of the meshes
  with a single armature, each once. Python leaves the order of a set open;
  the order of first occurrence is taken here.
\<close>

definition linked_armatures :: "object list \<Rightarrow> nat list \<Rightarrow> nat list" where
  "linked_armatures objs selected_meshes =
     remdups (concat (map (\<lambda>(mesh, l). case l of Single a \<Rightarrow> [a] | Several _ \<Rightarrow> [])
       (get_armatures_from_meshes objs selected_meshes)))"

text \<open>
  The loops of the operators over objects. Each takes the list of objects and
  returns it with the containers of the visited objects replaced; the lines an
  apply prints are dropped here.
\<close>

fun rename_meshes :: "preset \<Rightarrow> nat list \<Rightarrow> object list \<Rightarrow> error + object list" where
  "rename_meshes current_rules [] objs = Inr objs"
| "rename_meshes current_rules (mesh # rest) objs =
     (case rename_groups_of current_rules (ob_name (objs ! mesh)) (ob_nverts (objs ! mesh))
             (ob_vertex_groups (objs ! mesh)) of
        Inl e \<Rightarrow> Inl e
      | Inr (groups', trace) \<Rightarrow>
          rename_meshes current_rules rest (objs[mesh := (objs ! mesh)\<lparr>ob_vertex_groups := groups'\<rparr>]))"

fun rename_armatures :: "preset \<Rightarrow> nat list \<Rightarrow> object list \<Rightarrow> error + object list" where
  "rename_armatures current_rules [] objs = Inr objs"
| "rename_armatures current_rules (armature # rest) objs =
     (case rename_bones_of current_rules (ob_name (objs ! armature)) armature objs of
        Inl e \<Rightarrow> Inl e
      | Inr (objs', trace) \<Rightarrow> rename_armatures current_rules rest objs')"

text \<open>
  The synchronization loops of \<open>OBJECT_OT_rename_vertex_groups\<close>: for every
  linked armature and every mesh linked to it, the ruleset resolved against
  the name of the mesh is applied to the bones of the armature.
\<close>

fun rename_bones_for_meshes :: "preset \<Rightarrow> nat \<Rightarrow> nat list \<Rightarrow> object list \<Rightarrow> error + object list" where
  "rename_bones_for_meshes current_rules armature [] objs = Inr objs"
| "rename_bones_for_meshes current_rules armature (mesh # rest) objs =
     (case rename_bones_of current_rules (ob_name (objs ! mesh)) armature objs of
        Inl e \<Rightarrow> Inl e
      | Inr (objs', trace) \<Rightarrow> rename_bones_for_meshes current_rules armature rest objs')"

fun sync_rename_bones :: "preset \<Rightarrow> (nat \<times> nat list) list \<Rightarrow> nat list \<Rightarrow> object list \<Rightarrow> error + object list" where
  "sync_rename_bones current_rules armature_to_meshes [] objs = Inr objs"
| "sync_rename_bones current_rules armature_to_meshes (armature # rest) objs =
     (let meshes_linked = (case map_of armature_to_meshes armature of None \<Rightarrow> [] | Some ms \<Rightarrow> ms) in
      case rename_bones_for_meshes current_rules armature meshes_linked objs of
        Inl e \<Rightarrow> Inl e
      | Inr objs' \<Rightarrow> sync_rename_bones current_rules armature_to_meshes rest objs')"

text \<open>\<open>OBJECT_OT_rename_vertex_groups.execute\<close>\<close>

definition rename_vertex_groups_execute :: "store \<Rightarrow> scene \<Rightarrow> error + (status \<times> report list \<times> scene)" where
  "rename_vertex_groups_execute st sc =
     (let objs = scene_objects sc;
          selected_meshes = selected_of_type sc MESH
      in if selected_meshes = [] then Inr (CANCELLED, [(WARNING, ''No mesh objects selected.'')], sc)
         else
           (let current_rules = current_rules_of st;
                multiple = meshes_with_multiple_armatures objs selected_meshes
            in if sync_group_bone sc \<and> multiple \<noteq> [] then
                 Inr (CANCELLED, [multiple_armatures_report objs multiple], sc)
               else
                 (let armatures = linked_armatures objs selected_meshes;
                      armature_to_meshes = get_meshes_from_armatures objs armatures
                  in case rename_meshes current_rules selected_meshes objs of
                       Inl e \<Rightarrow> Inl e
                     | Inr objs1 \<Rightarrow>
                         if sync_group_bone sc then
                           (case sync_rename_bones current_rules armature_to_meshes armatures objs1 of
                              Inl e \<Rightarrow> Inl e
                            | Inr objs2 \<Rightarrow> Inr (FINISHED, [], sc\<lparr>scene_objects := objs2\<rparr>))
                         else Inr (FINISHED, [], sc\<lparr>scene_objects := objs1\<rparr>))))"

text \<open>
  \<open>OBJECT_OT_undo_vertex_group_rename.execute\<close>, with the same shape: the undo
  of the ruleset on the vertex groups of the selected meshes and, when
  synchronizing, on the bones of the linked armatures.
\<close>

fun undo_meshes :: "preset \<Rightarrow> nat list \<Rightarrow> object list \<Rightarrow> error + object list" where
  "undo_meshes current_rules [] objs = Inr objs"
| "undo_meshes current_rules (mesh # rest) objs =
     (case undo_of current_rules (ob_name (objs ! mesh)) (ob_vertex_groups (objs ! mesh)) of
        Inl e \<Rightarrow> Inl e
      | Inr groups' \<Rightarrow>
          undo_meshes current_rules rest (objs[mesh := (objs ! mesh)\<lparr>ob_vertex_groups := groups'\<rparr>]))"

fun undo_bones_for_meshes :: "preset \<Rightarrow> nat \<Rightarrow> nat list \<Rightarrow> object list \<Rightarrow> error + object list" where
  "undo_bones_for_meshes current_rules armature [] objs = Inr objs"
| "undo_bones_for_meshes current_rules armature (mesh # rest) objs =
     (case undo_bones_of current_rules (ob_name (objs ! mesh)) armature objs of
        Inl e \<Rightarrow> Inl e
      | Inr objs' \<Rightarrow> undo_bones_for_meshes current_rules armature rest objs')"

fun sync_undo_bones :: "preset \<Rightarrow> (nat \<times> nat list) list \<Rightarrow> nat list \<Rightarrow> object list \<Rightarrow> error + object list" where
  "sync_undo_bones current_rules armature_to_meshes [] objs = Inr objs"
| "sync_undo_bones current_rules armature_to_meshes (armature # rest) objs =
     (let meshes_linked = (case map_of armature_to_meshes armature of None \<Rightarrow> [] | Some ms \<Rightarrow> ms) in
      case undo_bones_for_meshes current_rules armature meshes_linked objs of
        Inl e \<Rightarrow> Inl e
      | Inr objs' \<Rightarrow> sync_undo_bones current_rules armature_to_meshes rest objs')"

definition undo_vertex_group_rename_execute :: "store \<Rightarrow> scene \<Rightarrow> error + (status \<times> report list \<times> scene)" where
  "undo_vertex_group_rename_execute st sc =
     (let objs = scene_objects sc;
          selected_meshes = selected_of_type sc MESH
      in if selected_meshes = [] then Inr (CANCELLED, [(WARNING, ''No mesh objects selected.'')], sc)
         else
           (let current_rules = current_rules_of st;
                multiple = meshes_with_multiple_armatures objs selected_meshes
            in if sync_group_bone sc \<and> multiple \<noteq> [] then
                 Inr (CANCELLED, [multiple_armatures_report objs multiple], sc)
               else
                 (let armatures = linked_armatures objs selected_meshes;
                      armature_to_meshes = get_meshes_from_armatures objs armatures
                  in case undo_meshes current_rules selected_meshes objs of
                       Inl e \<Rightarrow> Inl e
                     | Inr objs1 \<Rightarrow>
                         if sync_group_bone sc then
                           (case sync_undo_bones current_rules armature_to_meshes armatures objs1 of
                              Inl e \<Rightarrow> Inl e
                            | Inr objs2 \<Rightarrow> Inr (FINISHED, [], sc\<lparr>scene_objects := objs2\<rparr>))
                         else Inr (FINISHED, [], sc\<lparr>scene_objects := objs1\<rparr>))))"

text \<open>
  \<open>OBJECT_OT_quick_mirror_vertex_groups.execute\<close>: the vertex groups of the
  selected meshes are mirrored; when synchronizing, the bones of the linked
  armatures are mirrored and then the vertex groups of the selected meshes
  once more.
\<close>

fun mirror_meshes :: "nat list \<Rightarrow> object list \<Rightarrow> object list" where
  "mirror_meshes [] objs = objs"
| "mirror_meshes (mesh # rest) objs =
     mirror_meshes rest
       (objs[mesh := (objs ! mesh)\<lparr>ob_vertex_groups := mirror_names (ob_vertex_groups (objs ! mesh))\<rparr>])"

fun mirror_armatures :: "nat list \<Rightarrow> object list \<Rightarrow> object list" where
  "mirror_armatures [] objs = objs"
| "mirror_armatures (armature # rest) objs =
     mirror_armatures rest (mirror_bone_names armature objs)"

definition quick_mirror_vertex_groups_execute :: "scene \<Rightarrow> error + (status \<times> report list \<times> scene)" where
  "quick_mirror_vertex_groups_execute sc =
     (let objs = scene_objects sc;
          selected_meshes = selected_of_type sc MESH
      in if selected_meshes = [] then Inr (CANCELLED, [(WARNING, ''No mesh objects selected.'')], sc)
         else
           (let multiple = meshes_with_multiple_armatures objs selected_meshes
            in if sync_group_bone sc \<and> multiple \<noteq> [] then
                 Inr (CANCELLED, [multiple_armatures_report objs multiple], sc)
               else
                 (let armatures = linked_armatures objs selected_meshes;
                      objs1 = mirror_meshes selected_meshes objs
                  in if sync_group_bone sc then
                       Inr (FINISHED, [],
                            sc\<lparr>scene_objects :=
                                 mirror_meshes selected_meshes (mirror_armatures armatures objs1)\<rparr>)
                     else Inr (FINISHED, [], sc\<lparr>scene_objects := objs1\<rparr>))))"

text \<open>
  \<open>OBJECT_OT_rename_bones.execute\<close>. With synchronization enabled the operator
  builds the links of the selected armatures (the armatures with several
  meshes and their names, a first mesh for every armature, the armatures of
  these meshes) and uses none of them: the error report, its \<open>return\<close> and the
  loop over the linked meshes are commented out in the source. The vertex
  groups of the linked meshes change only through the host, which renames a
  vertex group with the bone whose name it carries.
\<close>

definition armature_sync_links :: "object list \<Rightarrow> nat list \<Rightarrow> string \<times> nat list \<times> (nat \<times> armature_link) list" where
  "armature_sync_links objs selected_armatures =
     (let armature_to_meshes = get_meshes_from_armatures objs selected_armatures;
          armatures_with_multiple_meshes =
            map fst (filter (\<lambda>(armature, meshes). length meshes > 1) armature_to_meshes);
          armature_names = join '', '' (map (\<lambda>arm. ob_name (objs ! arm)) armatures_with_multiple_meshes);
          meshes = remdups (map (\<lambda>(armature, meshes). hd meshes) armature_to_meshes);
          mesh_to_armatures = get_armatures_from_meshes objs meshes
      in (armature_names, meshes, mesh_to_armatures))"

definition rename_bones_execute :: "store \<Rightarrow> scene \<Rightarrow> error + (status \<times> report list \<times> scene)" where
  "rename_bones_execute st sc =
     (let objs = scene_objects sc;
          selected_armatures = selected_of_type sc ARMATURE
      in if selected_armatures = [] then Inr (CANCELLED, [(WARNING, ''No armatures selected.'')], sc)
         else
           (let current_rules = current_rules_of st;
                links = (if sync_group_bone sc then Some (armature_sync_links objs selected_armatures)
                         else None)
            in case rename_armatures current_rules selected_armatures objs of
                 Inl e \<Rightarrow> Inl e
               | Inr objs1 \<Rightarrow> Inr (FINISHED, [], sc\<lparr>scene_objects := objs1\<rparr>)))"

text \<open>
  What \<open>get_armatures_from_meshes\<close> records for one mesh: nothing, its single
  armature, or the list of its several armatures.
\<close>

definition link_of :: "object list \<Rightarrow> nat \<Rightarrow> armature_link option" where
  "link_of objs mesh =
     (let armatures = armatures_of_mesh objs mesh in
      if length armatures > 1 then Some (Several armatures)
      else if length armatures = 1 then Some (Single (hd armatures))
      else None)"

section \<open>Example scenes\<close>

text \<open>
  A mesh Char_Body with the vertex groups Arm and Extra, deformed by the
  armature Char_Rig with the bones Arm and Leg; the mesh is object 0 and the
  armature object 1. The preset of \<open>body_store\<close> renames Arm, the preset of
  \<open>extra_store\<close> renames Arm and Extra, the preset of \<open>merge_store\<close> merges
  Arm and Leg.
\<close>

definition armature_modifier :: "nat \<Rightarrow> modifier" where
  "armature_modifier a = \<lparr>mod_type = ARMATURE_MODIFIER, mod_object = Some a\<rparr>"

definition mesh_object :: "string \<Rightarrow> modifier list \<Rightarrow> wgroup container \<Rightarrow> nat \<Rightarrow> object" where
  "mesh_object nm mods groups n =
     \<lparr>ob_name = nm, ob_type = MESH, ob_modifiers = mods, ob_vertex_groups = groups,
      ob_nverts = n, ob_bones = []\<rparr>"

definition armature_object :: "string \<Rightarrow> string list \<Rightarrow> object" where
  "armature_object nm bone_names =
     \<lparr>ob_name = nm, ob_type = ARMATURE, ob_modifiers = [], ob_vertex_groups = [],
      ob_nverts = 0, ob_bones = map (\<lambda>b. (b, new_bone_data)) bone_names\<rparr>"

definition body_scene :: "nat list \<Rightarrow> scene" where
  "body_scene sel =
     \<lparr>scene_objects =
        [mesh_object ''Char_Body'' [armature_modifier 1] [(''Arm'', [(0, 1)]), (''Extra'', [(1, 1)])] 2,
         armature_object ''Char_Rig'' [''Arm'', ''Leg'']],
      selected_objects = sel, sync_group_bone = True\<rparr>"



definition merge_store :: store where
  "merge_store =
     \<lparr>presets = [(''Default'', [(''Char_'', [(''Arm'', ''Limb''), (''Leg'', ''Limb'')])])],
      current_preset = ''Default'', preset_dropdown = ''Default''\<rparr>"

text \<open>
  The meshes M (object 0), deformed by the armature S (object 2), and M2
  (object 1), deformed by S and by the armature S2 (object 3).
\<close>

definition two_armature_scene :: "nat list \<Rightarrow> scene" where
  "two_armature_scene sel =
     \<lparr>scene_objects =
        [mesh_object ''M'' [armature_modifier 2] [(''Arm'', [(0, 1)])] 1,
         mesh_object ''M2'' [armature_modifier 2, armature_modifier 3] [(''Arm'', [(0, 1)])] 1,
         armature_object ''S'' [''Arm''],
         armature_object ''S2'' [''Arm'']],
      selected_objects = sel, sync_group_bone = True\<rparr>"

definition arm_store :: store where
  "arm_store =
     \<lparr>presets = [(''Default'', [('''', [(''Arm'', ''UpperArm'')])])],
      current_preset = ''Default'', preset_dropdown = ''Default''\<rparr>"

section \<open>Verification: the mirror engine\<close>

lemma get_member_None: "get_member c n = None \<longleftrightarrow> n \<notin> set (names c)"
  by (induction c) (auto simp: names_def)

lemma get_member_Some: "get_member c n = Some i \<Longrightarrow> i < length c \<and> fst (c ! i) = n"
  by (induction c arbitrary: i) (auto split: if_splits)

lemma host_name_free:
  "valid_name n \<Longrightarrow> n \<notin> set taken \<Longrightarrow> host_name defname taken n = n"
  by (simp add: host_name_def unique_name_def valid_name_def)

lemma update_rename1:
  assumes "distinct (names c)" "i < length c" "fst (c ! i) = old"
  shows "c[i := (new, snd (c ! i))] = rename1 old new c"
proof (rule nth_equalityI)
  show "length (c[i := (new, snd (c ! i))]) = length (rename1 old new c)"
    by (simp add: rename1_def)
next
  fix j assume "j < length (c[i := (new, snd (c ! i))])"
  then have j: "j < length c" by simp
  show "c[i := (new, snd (c ! i))] ! j = rename1 old new c ! j"
  proof (cases "j = i")
    case True
    then show ?thesis using assms(2,3) by (simp add: rename1_def case_prod_beta)
  next
    case False
    have "map fst c ! j \<noteq> map fst c ! i"
      using assms(1,2) j False unfolding names_def by (simp only: nth_eq_iff_index_eq length_map not_False_eq_True)
    then have "fst (c ! j) \<noteq> fst (c ! i)"
      using assms(2) j by simp
    then show ?thesis using False j assms(3) by (simp add: rename1_def case_prod_beta)
  qed
qed

lemma set_name_fresh:
  assumes "distinct (names c)" "i < length c" "fst (c ! i) = old" "new \<notin> set (names c)"
    and "valid_name new"
  shows "set_name c i new = rename1 old new c"
proof -
  have "new \<notin> set (take i (names c) @ drop (Suc i) (names c))"
    using assms(4) by (auto dest: in_set_takeD in_set_dropD)
  then have "host_name ''Group'' (take i (names c) @ drop (Suc i) (names c)) new = new"
    using assms(5) by (rule host_name_free[rotated])
  then show ?thesis
    using update_rename1[OF assms(1,2,3)] by (simp add: set_name_def)
qed

lemma names_rename1: "names (rename1 old new c) = map (\<lambda>n. if n = old then new else n) (names c)"
  by (simp add: rename1_def names_def case_prod_beta comp_def)

lemma rename1_absent: "old \<notin> set (names c) \<Longrightarrow> rename1 old new c = c"
  by (induction c) (auto simp: rename1_def names_def)

lemma rename_found_fresh:
  assumes "distinct (names c)" "distinct (map snd rs)"
    "set (map snd rs) \<inter> set (names c) = {}"
    "set (map snd rs) \<inter> set (map fst rs) = {}"
    "list_all valid_name (map snd rs)"
  shows "rename_found rs c = map (\<lambda>(n, p). (rename_map rs n, p)) c"
  using assms
proof (induction rs arbitrary: c)
  case Nil
  then show ?case by (simp add: rename_map_def)
next
  case (Cons r rs)
  obtain old new where r: "r = (old, new)" by (cases r)
  let ?c' = "rename1 old new c"
  have new_fresh: "new \<notin> set (names c)" using Cons.prems(3) r by auto
  have new_valid: "valid_name new" using Cons.prems(5) r by simp
  have step: "rename_found (r # rs) c = rename_found rs ?c'"
  proof (cases "get_member c old")
    case None
    moreover have "old \<notin> set (names c)" using None by (simp add: get_member_None)
    ultimately show ?thesis using r by (simp add: rename1_absent)
  next
    case (Some i)
    then show ?thesis
      using r set_name_fresh[OF Cons.prems(1) _ _ new_fresh new_valid, of i old] get_member_Some[OF Some]
      by simp
  qed
  have d': "distinct (names ?c')"
    using Cons.prems(1) new_fresh
    by (auto simp: names_rename1 distinct_map inj_on_def)
  have f': "set (map snd rs) \<inter> set (names ?c') = {}"
    using Cons.prems(2,3) r by (auto simp: names_rename1)
  have IH: "rename_found rs ?c' = map (\<lambda>(n, p). (rename_map rs n, p)) ?c'"
    using Cons.IH[OF d' _ f'] Cons.prems(2,4,5) by auto
  have new_not_old: "map_of rs new = None"
    using Cons.prems(4) r by (auto simp: map_of_eq_None_iff)
  have "map (\<lambda>(n, p). (rename_map rs n, p)) ?c' = map (\<lambda>(n, p). (rename_map (r # rs) n, p)) c"
    using new_not_old r by (auto simp: rename1_def rename_map_def)
  then show ?case using step IH by simp
qed

lemma rename_found_absent:
  "set (map fst rs) \<inter> set (names c) = {} \<Longrightarrow> rename_found rs c = c"
  by (induction rs) (auto simp: get_member_None[symmetric] split: option.splits)

lemma startswith_iff: "startswith s p \<longleftrightarrow> (\<exists>t. s = p @ t)"
  unfolding startswith_def
  by (metis append_eq_conv_conj)

lemma startswith_L: "startswith n ''L_'' \<Longrightarrow> ''L_'' @ drop 2 n = n"
  by (auto simp: startswith_iff)

lemma startswith_R: "startswith n ''R_'' \<Longrightarrow> ''R_'' @ drop 2 n = n"
  by (auto simp: startswith_iff)

lemma not_L_and_R: "startswith n ''L_'' \<Longrightarrow> \<not> startswith n ''R_''"
  by (auto simp: startswith_iff)

lemma name_swap_pairs_eq:
  "name_swap_pairs nms xs = map (\<lambda>n. (n, mirrored_name nms n)) (filter (is_paired nms) xs)"
  by (induction xs) (auto simp: is_paired_def mirrored_name_def Let_def not_L_and_R)

lemma mirrored_unpaired: "\<not> is_paired nms n \<Longrightarrow> mirrored_name nms n = n"
  by (auto simp: is_paired_def mirrored_name_def)

lemma mirrored_paired:
  assumes "n \<in> set nms" "is_paired nms n"
  shows "mirrored_name nms n \<in> set nms \<and> is_paired nms (mirrored_name nms n)
     \<and> mirrored_name nms (mirrored_name nms n) = n \<and> mirrored_name nms n \<noteq> n"
  using assms
  by (auto simp: is_paired_def mirrored_name_def startswith_iff)

lemma mirrored_involution:
  "n \<in> set nms \<Longrightarrow> mirrored_name nms (mirrored_name nms n) = n"
  by (cases "is_paired nms n") (auto simp: mirrored_paired mirrored_unpaired)

lemma mirrored_in_set: "n \<in> set nms \<Longrightarrow> mirrored_name nms n \<in> set nms"
  by (cases "is_paired nms n") (auto simp: mirrored_paired mirrored_unpaired)

lemma mirrored_inj_on: "inj_on (mirrored_name nms) (set nms)"
  by (rule inj_on_inverseI[where g = "mirrored_name nms"]) (rule mirrored_involution)

lemma map_of_keyed:
  "map_of (map (\<lambda>n. (n, g n)) xs) k = (if k \<in> set xs then Some (g k) else None)"
  by (induction xs) auto

lemma map_of_inj_keyed:
  "inj_on f (insert m (set xs)) \<Longrightarrow>
   map_of (map (\<lambda>n. (f n, g n)) xs) (f m) = (if m \<in> set xs then Some (g m) else None)"
  by (induction xs) (auto simp: inj_on_def)

lemma map_of_absent_key:
  "k \<notin> f ` set xs \<Longrightarrow> map_of (map (\<lambda>n. (f n, g n)) xs) k = None"
  by (induction xs) auto

lemma mirror_phases:
  fixes nms :: "string list"
  assumes d: "distinct nms"
    and fresh: "\<forall>n\<in>set nms. is_paired nms n \<longrightarrow> ''__swap_temp__'' @ n \<notin> set nms"
    and short: "\<forall>n\<in>set nms. is_paired nms n \<longrightarrow> length n \<le> 50"
  shows "distinct (map snd (to_temp_pairs nms))"
    and "set (map snd (to_temp_pairs nms)) \<inter> set nms = {}"
    and "set (map snd (to_temp_pairs nms)) \<inter> set (map fst (to_temp_pairs nms)) = {}"
    and "list_all valid_name (map snd (to_temp_pairs nms))"
    and "set (map fst (second_pairs nms)) \<inter> set (map (rename_map (to_temp_pairs nms)) nms) = {}"
    and "distinct (map (rename_map (to_temp_pairs nms)) nms)"
    and "distinct (map snd (from_temp_pairs nms))"
    and "set (map snd (from_temp_pairs nms)) \<inter> set (map (rename_map (to_temp_pairs nms)) nms) = {}"
    and "set (map snd (from_temp_pairs nms)) \<inter> set (map fst (from_temp_pairs nms)) = {}"
    and "list_all valid_name (map snd (from_temp_pairs nms))"
    and "\<forall>n\<in>set nms. rename_map (from_temp_pairs nms) (rename_map (to_temp_pairs nms) n) = mirrored_name nms n"
proof -
  define P where "P = filter (is_paired nms) nms"
  define mir where "mir = mirrored_name nms"
  define T where "T = ''__swap_temp__''"
  define rs1 where "rs1 = map (\<lambda>n. (n, T @ mir n)) P"
  define rs2 where "rs2 = map (\<lambda>n. (mir n, n)) P"
  define rs3 where "rs3 = map (\<lambda>n. (T @ mir n, mir n)) P"
  define nms1 where "nms1 = map (rename_map rs1) nms"
  have pairs: "name_swap_pairs nms nms = map (\<lambda>n. (n, mir n)) P"
    by (simp add: name_swap_pairs_eq P_def mir_def)
  have maps: "to_temp_pairs nms = rs1" "second_pairs nms = rs2" "from_temp_pairs nms = rs3"
    by (simp_all add: to_temp_pairs_def second_pairs_def from_temp_pairs_def pairs
        rs1_def rs2_def rs3_def T_def comp_def)
  have P_set: "set P = {n \<in> set nms. is_paired nms n}" by (auto simp: P_def)
  have dP: "distinct P" using d by (simp add: P_def)
  have mirP: "mir ` set P = set P"
  proof
    show "mir ` set P \<subseteq> set P" using mirrored_paired[of _ nms] by (auto simp: P_set mir_def)
    show "set P \<subseteq> mir ` set P"
    proof
      fix n assume "n \<in> set P"
      then have "mir n \<in> set P" "mir (mir n) = n"
        using mirrored_paired[of n nms] by (auto simp: P_set mir_def)
      then show "n \<in> mir ` set P" by (metis imageI)
    qed
  qed
  have inj_mir: "inj_on mir (set P)"
    using mirrored_inj_on[of nms] by (auto simp: mir_def P_set inj_on_def)
  have T_fresh: "\<And>n. n \<in> set P \<Longrightarrow> T @ n \<notin> set nms"
    using fresh by (auto simp: P_set T_def)
  have T_mir_fresh: "\<And>n. n \<in> set P \<Longrightarrow> T @ mir n \<notin> set nms"
    using T_fresh mirP by blast
  have P_short: "\<And>n. n \<in> set P \<Longrightarrow> length n \<le> 50"
    using short by (auto simp: P_set)
  have P_mir_short: "\<And>n. n \<in> set P \<Longrightarrow> length (mir n) \<le> 50"
    using P_short mirP by blast
  have P_nonempty: "\<And>n. n \<in> set P \<Longrightarrow> n \<noteq> []"
    by (auto simp: P_set is_paired_def startswith_def)
  have P_mir_nonempty: "\<And>n. n \<in> set P \<Longrightarrow> mir n \<noteq> []"
    using P_nonempty mirP by blast
  have rm1: "\<And>n. rename_map rs1 n = (if n \<in> set P then T @ mir n else n)"
    by (simp add: rename_map_def rs1_def map_of_keyed)
  have names1: "nms1 = map (\<lambda>n. if n \<in> set P then T @ mir n else n) nms"
    unfolding nms1_def using rm1 by simp
  have P_gone: "\<And>n. n \<in> set P \<Longrightarrow> n \<notin> set nms1"
    using T_mir_fresh by (auto simp: names1 P_set)
  have a1: "distinct (map snd rs1)"
    using dP inj_mir by (auto simp: rs1_def comp_def distinct_map inj_on_def)
  have a2: "set (map snd rs1) \<inter> set nms = {}"
    using T_mir_fresh by (auto simp: rs1_def)
  have a3: "set (map snd rs1) \<inter> set (map fst rs1) = {}"
    using T_mir_fresh by (auto simp: rs1_def P_set)
  have a4: "list_all valid_name (map snd rs1)"
    using P_mir_short by (auto simp: rs1_def list_all_iff valid_name_def T_def)
  have b1: "set (map fst rs2) \<inter> set nms1 = {}"
  proof -
    have "set (map fst rs2) = set P" using mirP by (simp add: rs2_def)
    then show ?thesis using P_gone by auto
  qed
  have c0: "distinct nms1"
    unfolding names1 distinct_map
  proof
    show "distinct nms" by (rule d)
    show "inj_on (\<lambda>n. if n \<in> set P then T @ mir n else n) (set nms)"
    proof (rule inj_onI)
      fix x y assume xy: "x \<in> set nms" "y \<in> set nms"
        and eq: "(if x \<in> set P then T @ mir x else x) = (if y \<in> set P then T @ mir y else y)"
      show "x = y"
      proof (cases "x \<in> set P"; cases "y \<in> set P")
        assume "x \<in> set P" "y \<in> set P"
        then show ?thesis using eq inj_mir by (auto simp: inj_on_def)
      next
        assume "x \<in> set P" "y \<notin> set P"
        then show ?thesis using eq T_mir_fresh[of x] xy by auto
      next
        assume "x \<notin> set P" "y \<in> set P"
        then show ?thesis using eq T_mir_fresh[of y] xy by auto
      next
        assume "x \<notin> set P" "y \<notin> set P"
        then show ?thesis using eq by simp
      qed
    qed
  qed
  have c1: "distinct (map snd rs3)"
    using dP inj_mir by (auto simp: rs3_def comp_def distinct_map)
  have c2: "set (map snd rs3) \<inter> set nms1 = {}"
  proof -
    have "set (map snd rs3) = set P" using mirP by (simp add: rs3_def)
    then show ?thesis using P_gone by auto
  qed
  have c3: "set (map snd rs3) \<inter> set (map fst rs3) = {}"
  proof -
    have "set (map snd rs3) \<subseteq> set nms" using mirP by (auto simp: rs3_def P_set)
    moreover have "set (map fst rs3) \<inter> set nms = {}" using T_mir_fresh by (auto simp: rs3_def)
    ultimately show ?thesis by auto
  qed
  have c4: "list_all valid_name (map snd rs3)"
  proof -
    have "\<And>n. n \<in> set P \<Longrightarrow> valid_name (mir n)"
    proof -
      fix n assume n: "n \<in> set P"
      have "length (mir n) \<le> 50" by (rule P_mir_short[OF n])
      then have "length (mir n) \<le> 63" by simp
      then show "valid_name (mir n)" using P_mir_nonempty[OF n] by (simp add: valid_name_def)
    qed
    then show ?thesis by (simp add: rs3_def list_all_iff)
  qed
  have rm3_T: "\<And>n. n \<in> set P \<Longrightarrow> rename_map rs3 (T @ mir n) = mir n"
  proof -
    fix n assume n: "n \<in> set P"
    have "inj_on (\<lambda>n. T @ mir n) (insert n (set P))"
      using inj_mir n by (auto simp: inj_on_def insert_absorb)
    from map_of_inj_keyed[OF this, of mir] n
    show "rename_map rs3 (T @ mir n) = mir n" by (simp add: rename_map_def rs3_def)
  qed
  have rm3_other: "\<And>n. n \<in> set nms \<Longrightarrow> rename_map rs3 n = n"
  proof -
    fix n assume n: "n \<in> set nms"
    have "n \<notin> (\<lambda>n. T @ mir n) ` set P" using T_mir_fresh n by auto
    then show "rename_map rs3 n = n"
      by (simp add: rename_map_def rs3_def map_of_absent_key)
  qed
  have e: "\<forall>n\<in>set nms. rename_map rs3 (rename_map rs1 n) = mir n"
  proof
    fix n assume n: "n \<in> set nms"
    show "rename_map rs3 (rename_map rs1 n) = mir n"
    proof (cases "n \<in> set P")
      case True
      then show ?thesis by (simp add: rm1 rm3_T)
    next
      case False
      then have "mir n = n" using n by (simp add: P_set mir_def mirrored_unpaired)
      then show ?thesis using False n by (simp add: rm1 rm3_other)
    qed
  qed
  show "distinct (map snd (to_temp_pairs nms))"
    and "set (map snd (to_temp_pairs nms)) \<inter> set nms = {}"
    and "set (map snd (to_temp_pairs nms)) \<inter> set (map fst (to_temp_pairs nms)) = {}"
    and "list_all valid_name (map snd (to_temp_pairs nms))"
    and "set (map fst (second_pairs nms)) \<inter> set (map (rename_map (to_temp_pairs nms)) nms) = {}"
    and "distinct (map (rename_map (to_temp_pairs nms)) nms)"
    and "distinct (map snd (from_temp_pairs nms))"
    and "set (map snd (from_temp_pairs nms)) \<inter> set (map (rename_map (to_temp_pairs nms)) nms) = {}"
    and "set (map snd (from_temp_pairs nms)) \<inter> set (map fst (from_temp_pairs nms)) = {}"
    and "list_all valid_name (map snd (from_temp_pairs nms))"
    and "\<forall>n\<in>set nms. rename_map (from_temp_pairs nms) (rename_map (to_temp_pairs nms) n) = mirrored_name nms n"
    unfolding maps using a1 a2 a3 a4 b1 c0 c1 c2 c3 c4 e
    by (simp_all only: nms1_def mir_def)
qed

lemma names_map_renamed:
  "names (map (\<lambda>(n, p). (f n, p)) c) = map f (names c)"
  by (simp add: names_def comp_def case_prod_beta)

lemma mirror_names_eq:
  fixes c :: "'a container"
  assumes d: "distinct (names c)"
    and fresh: "\<forall>n\<in>set (names c). is_paired (names c) n \<longrightarrow> ''__swap_temp__'' @ n \<notin> set (names c)"
    and short: "\<forall>n\<in>set (names c). is_paired (names c) n \<longrightarrow> length n \<le> 50"
  shows "mirror_names c = map (\<lambda>(n, p). (mirrored_name (names c) n, p)) c"
proof -
  define c1 where "c1 = map (\<lambda>(n, p). (rename_map (to_temp_pairs (names c)) n, p)) c"
  note ph = mirror_phases[OF d fresh short]
  have names_c1: "names c1 = map (rename_map (to_temp_pairs (names c))) (names c)"
    by (simp add: c1_def names_map_renamed)
  have ph1: "rename_found (to_temp_pairs (names c)) c = c1"
    unfolding c1_def
    by (rule rename_found_fresh[OF d ph(1) ph(2) ph(3) ph(4)])
  have ph2: "rename_found (second_pairs (names c)) c1 = c1"
    by (rule rename_found_absent) (unfold names_c1, rule ph(5))
  have d1: "distinct (names c1)" unfolding names_c1 by (rule ph(6))
  have ph3: "rename_found (from_temp_pairs (names c)) c1
               = map (\<lambda>(n, p). (rename_map (from_temp_pairs (names c)) n, p)) c1"
    by (rule rename_found_fresh[OF d1 ph(7) _ ph(9) ph(10)]) (unfold names_c1, rule ph(8))
  have final: "map (\<lambda>(n, p). (rename_map (from_temp_pairs (names c)) n, p)) c1
                 = map (\<lambda>(n, p). (mirrored_name (names c) n, p)) c"
  proof -
    have "\<And>n p. (n, p) \<in> set c \<Longrightarrow>
            rename_map (from_temp_pairs (names c)) (rename_map (to_temp_pairs (names c)) n)
              = mirrored_name (names c) n"
    proof -
      fix n p assume "(n, p) \<in> set c"
      then have "n \<in> set (names c)" by (force simp: names_def)
      then show "rename_map (from_temp_pairs (names c)) (rename_map (to_temp_pairs (names c)) n)
              = mirrored_name (names c) n"
        using ph(11) by blast
    qed
    then show ?thesis by (auto simp: c1_def)
  qed
  have "mirror_names c = rename_found (from_temp_pairs (names c))
          (rename_found (second_pairs (names c)) (rename_found (to_temp_pairs (names c)) c))"
    by (simp add: mirror_names_def Let_def to_temp_pairs_def second_pairs_def from_temp_pairs_def)
  then show ?thesis
    by (simp add: ph1 ph2 ph3 final)
qed

lemma mirrored_name_cong: "set a = set b \<Longrightarrow> mirrored_name a n = mirrored_name b n"
  by (simp add: mirrored_name_def)

lemma is_paired_startswith:
  "is_paired nms n \<Longrightarrow> startswith n ''L_'' \<or> startswith n ''R_''"
  by (auto simp: is_paired_def)

lemma temp_of_prefix: "startswith (''__swap_temp__'' @ n) ''__swap_temp__''"
  by (simp add: startswith_def)

lemma names_map_mirrored:
  "names (map (\<lambda>(n, p). (f n, p)) c) = map f (names c)"
  by (simp add: names_def comp_def case_prod_beta)

lemma mirrored_L: "''R_'' @ s \<in> set nms \<Longrightarrow> mirrored_name nms (''L_'' @ s) = ''R_'' @ s"
  by (simp add: mirrored_name_def startswith_def)

lemma mirrored_R: "''L_'' @ s \<in> set nms \<Longrightarrow> mirrored_name nms (''R_'' @ s) = ''L_'' @ s"
  by (simp add: mirrored_name_def startswith_def)

lemma mirrored_none:
  assumes "\<forall>s. n = ''L_'' @ s \<longrightarrow> ''R_'' @ s \<notin> set nms"
    and "\<forall>s. n = ''R_'' @ s \<longrightarrow> ''L_'' @ s \<notin> set nms"
  shows "mirrored_name nms n = n"
proof (rule mirrored_unpaired)
  show "\<not> is_paired nms n"
    using assms startswith_L[of n] startswith_R[of n] unfolding is_paired_def by metis
qed

lemma mirror_each:
  fixes c :: "'a container"
  assumes "i < length c"
  shows "snd (map (\<lambda>(n, p). (mirrored_name (names c) n, p)) c ! i) = snd (c ! i) \<and>
         (\<forall>s. fst (c ! i) = ''L_'' @ s \<and> ''R_'' @ s \<in> set (names c) \<longrightarrow> fst (map (\<lambda>(n, p). (mirrored_name (names c) n, p)) c ! i) = ''R_'' @ s) \<and>
         (\<forall>s. fst (c ! i) = ''R_'' @ s \<and> ''L_'' @ s \<in> set (names c) \<longrightarrow> fst (map (\<lambda>(n, p). (mirrored_name (names c) n, p)) c ! i) = ''L_'' @ s) \<and>
         ((\<forall>s. fst (c ! i) = ''L_'' @ s \<longrightarrow> ''R_'' @ s \<notin> set (names c)) \<and>
          (\<forall>s. fst (c ! i) = ''R_'' @ s \<longrightarrow> ''L_'' @ s \<notin> set (names c))
            \<longrightarrow> fst (map (\<lambda>(n, p). (mirrored_name (names c) n, p)) c ! i) = fst (c ! i))"
proof -
  have nth: "map (\<lambda>(n, p). (mirrored_name (names c) n, p)) c ! i = (mirrored_name (names c) (fst (c ! i)), snd (c ! i))"
    using assms by (simp add: case_prod_beta)
  show ?thesis
    unfolding nth fst_conv snd_conv
    using mirrored_L[of _ "names c"] mirrored_R[of _ "names c"] mirrored_none[of "fst (c ! i)" "names c"]
    by metis
qed

text \<open>The same loops on the bones of an armature: what they do to the bones.\<close>

lemma propagate_length [simp]:
  "length (propagate_bone_rename a old new objs) = length objs"
  by (simp add: propagate_bone_rename_def)

lemma propagate_bones:
  "k < length objs \<Longrightarrow> ob_bones (propagate_bone_rename a old new objs ! k) = ob_bones (objs ! k)"
  by (simp add: propagate_bone_rename_def)

lemma set_bone_name_length [simp]:
  "length (set_bone_name objs a i new) = length objs"
  by (simp add: set_bone_name_def Let_def)

lemma set_bone_name_fresh:
  assumes "a < length objs" "distinct (names (ob_bones (objs ! a)))"
    and "i < length (ob_bones (objs ! a))" "fst (ob_bones (objs ! a) ! i) = old"
    and "new \<notin> set (names (ob_bones (objs ! a)))" "valid_name new"
  shows "set_bone_name objs a i new =
           propagate_bone_rename a old new
             (objs[a := (objs ! a)\<lparr>ob_bones := rename1 old new (ob_bones (objs ! a))\<rparr>])"
proof -
  have t: "take 63 new = new" using assms(6) by (simp add: valid_name_def)
  have "old \<in> set (names (ob_bones (objs ! a)))"
    using assms(3,4) unfolding names_def by (metis length_map nth_map nth_mem)
  then have ne: "new \<noteq> old" using assms(5) by auto
  have u: "unique_name ''Bone'' (names (ob_bones (objs ! a))) new = new"
    using assms(5,6) by (simp add: unique_name_def valid_name_def)
  show ?thesis
    using ne update_rename1[OF assms(2,3,4), of new]
    by (simp add: set_bone_name_def Let_def t u assms(4))
qed

lemma set_bone_name_fresh_bones:
  assumes "a < length objs" "distinct (names (ob_bones (objs ! a)))"
    and "i < length (ob_bones (objs ! a))" "fst (ob_bones (objs ! a) ! i) = old"
    and "new \<notin> set (names (ob_bones (objs ! a)))" "valid_name new"
  shows "ob_bones (set_bone_name objs a i new ! a) = rename1 old new (ob_bones (objs ! a))"
  unfolding set_bone_name_fresh[OF assms]
  using assms(1) by (simp add: propagate_bones)

lemma rename_found_bones_length [simp]:
  "length (rename_found_bones a rs objs) = length objs"
  by (induction rs arbitrary: objs) (auto split: option.splits)

lemma rename_found_bones_fresh:
  assumes "a < length objs" "distinct (names (ob_bones (objs ! a)))" "distinct (map snd rs)"
    "set (map snd rs) \<inter> set (names (ob_bones (objs ! a))) = {}"
    "set (map snd rs) \<inter> set (map fst rs) = {}"
    "list_all valid_name (map snd rs)"
  shows "ob_bones (rename_found_bones a rs objs ! a)
           = map (\<lambda>(n, p). (rename_map rs n, p)) (ob_bones (objs ! a))"
  using assms
proof (induction rs arbitrary: objs)
  case Nil
  then show ?case by (simp add: rename_map_def)
next
  case (Cons r rs)
  obtain old new where r: "r = (old, new)" by (cases r)
  let ?c = "ob_bones (objs ! a)"
  let ?c' = "rename1 old new ?c"
  have new_fresh: "new \<notin> set (names ?c)" using Cons.prems(4) r by auto
  have new_valid: "valid_name new" using Cons.prems(6) r by simp
  have "\<exists>objs'. rename_found_bones a (r # rs) objs = rename_found_bones a rs objs'
          \<and> length objs' = length objs \<and> ob_bones (objs' ! a) = ?c'"
  proof (cases "get_member ?c old")
    case None
    moreover have "old \<notin> set (names ?c)" using None by (simp add: get_member_None)
    ultimately show ?thesis using r by (intro exI[of _ objs]) (simp add: rename1_absent)
  next
    case (Some i)
    have i: "i < length ?c" "fst (?c ! i) = old" using get_member_Some[OF Some] by simp_all
    show ?thesis
      using r Some set_bone_name_fresh_bones[OF Cons.prems(1,2) i new_fresh new_valid]
      by (intro exI[of _ "set_bone_name objs a i new"]) simp
  qed
  then obtain objs' where step: "rename_found_bones a (r # rs) objs = rename_found_bones a rs objs'"
    and len: "length objs' = length objs" and bones': "ob_bones (objs' ! a) = ?c'"
    by blast
  have d': "distinct (names ?c')"
    using Cons.prems(2) new_fresh
    by (auto simp: names_rename1 distinct_map inj_on_def)
  have f': "set (map snd rs) \<inter> set (names ?c') = {}"
    using Cons.prems(3,4) r by (auto simp: names_rename1)
  have IH: "ob_bones (rename_found_bones a rs objs' ! a) = map (\<lambda>(n, p). (rename_map rs n, p)) ?c'"
    using Cons.IH[of objs'] Cons.prems(1,3,5,6) len d' f' bones' by auto
  have new_not_old: "map_of rs new = None"
    using Cons.prems(5) r by (auto simp: map_of_eq_None_iff)
  have "map (\<lambda>(n, p). (rename_map rs n, p)) ?c' = map (\<lambda>(n, p). (rename_map (r # rs) n, p)) ?c"
    using new_not_old r by (auto simp: rename1_def rename_map_def)
  then show ?case using step IH by simp
qed

lemma rename_found_bones_absent:
  "set (map fst rs) \<inter> set (names (ob_bones (objs ! a))) = {} \<Longrightarrow> rename_found_bones a rs objs = objs"
  by (induction rs) (auto simp: get_member_None[symmetric] split: option.splits)

lemma mirror_bone_names_length [simp]:
  "length (mirror_bone_names a objs) = length objs"
  by (simp add: mirror_bone_names_def Let_def)

lemma mirror_bone_names_eq:
  assumes a: "a < length objs"
    and d: "distinct (names (ob_bones (objs ! a)))"
    and fresh: "\<forall>n\<in>set (names (ob_bones (objs ! a))). is_paired (names (ob_bones (objs ! a))) n
                  \<longrightarrow> ''__swap_temp__'' @ n \<notin> set (names (ob_bones (objs ! a)))"
    and short: "\<forall>n\<in>set (names (ob_bones (objs ! a))). is_paired (names (ob_bones (objs ! a))) n
                  \<longrightarrow> length n \<le> 50"
  shows "ob_bones (mirror_bone_names a objs ! a)
           = map (\<lambda>(n, p). (mirrored_name (names (ob_bones (objs ! a))) n, p)) (ob_bones (objs ! a))"
proof -
  define c where "c = ob_bones (objs ! a)"
  define o1 where "o1 = rename_found_bones a (to_temp_pairs (names c)) objs"
  define c1 where "c1 = map (\<lambda>(n, p). (rename_map (to_temp_pairs (names c)) n, p)) c"
  note ph = mirror_phases[OF d fresh short, folded c_def]
  have names_c1: "names c1 = map (rename_map (to_temp_pairs (names c))) (names c)"
    by (simp add: c1_def names_map_renamed)
  have len1: "length o1 = length objs" by (simp add: o1_def)
  have ph1: "ob_bones (o1 ! a) = c1"
    unfolding c1_def o1_def c_def
    by (rule rename_found_bones_fresh[OF a d ph(1,2,3,4)[unfolded c_def]])
  have ph2: "rename_found_bones a (second_pairs (names c)) o1 = o1"
    by (rule rename_found_bones_absent) (unfold ph1 names_c1, rule ph(5))
  have a1: "a < length o1" using a len1 by simp
  have d1: "distinct (names (ob_bones (o1 ! a)))" unfolding ph1 names_c1 by (rule ph(6))
  have f1: "set (map snd (from_temp_pairs (names c))) \<inter> set (names (ob_bones (o1 ! a))) = {}"
    unfolding ph1 names_c1 by (rule ph(8))
  have ph3: "ob_bones (rename_found_bones a (from_temp_pairs (names c)) o1 ! a)
               = map (\<lambda>(n, p). (rename_map (from_temp_pairs (names c)) n, p)) c1"
    using rename_found_bones_fresh[OF a1 d1 ph(7) f1 ph(9) ph(10)] by (simp add: ph1)
  have final: "map (\<lambda>(n, p). (rename_map (from_temp_pairs (names c)) n, p)) c1
                 = map (\<lambda>(n, p). (mirrored_name (names c) n, p)) c"
  proof -
    have "\<And>n p. (n, p) \<in> set c \<Longrightarrow>
            rename_map (from_temp_pairs (names c)) (rename_map (to_temp_pairs (names c)) n)
              = mirrored_name (names c) n"
    proof -
      fix n p assume "(n, p) \<in> set c"
      then have "n \<in> set (names c)" by (force simp: names_def)
      then show "rename_map (from_temp_pairs (names c)) (rename_map (to_temp_pairs (names c)) n)
              = mirrored_name (names c) n"
        using ph(11) by blast
    qed
    then show ?thesis by (auto simp: c1_def)
  qed
  have m: "mirror_bone_names a objs = rename_found_bones a (from_temp_pairs (names c))
          (rename_found_bones a (second_pairs (names c)) o1)"
    by (simp add: mirror_bone_names_def Let_def to_temp_pairs_def second_pairs_def
        from_temp_pairs_def o1_def c_def)
  show ?thesis
    unfolding c_def[symmetric] m ph2 ph3 final by (rule refl)
qed

text \<open>
  Claim C6, as amended. For every container of vertex groups with distinct
  member names in which no paired member n (a member whose counterpart exists)
  has a name of more than 50 bytes or finds its transient name
  \<open>__swap_temp__\<close> + n already carried by a member, \<open>mirror_names\<close> keeps every
  payload, renames a member \<open>L_\<close> + s to \<open>R_\<close> + s and a member \<open>R_\<close> + s to
  \<open>L_\<close> + s exactly when the counterpart exists (the tokens are compared
  literally), and leaves the name of every member without a counterpart as it
  is. On the bones of an armature that meet the same conditions, the function
  leaves the bones that it makes of a container of vertex groups. On the names
  L_Arm, R_Arm, L_Leg it swaps L_Arm and R_Arm and leaves L_Leg.
\<close>

theorem mirror_swaps_pairs:
  fixes c :: "'a container" and a b l :: 'a
  assumes "distinct (names c)"
    and "list_all (\<lambda>n. is_paired (names c) n \<longrightarrow>
           ''__swap_temp__'' @ n \<notin> set (names c) \<and> length n \<le> 50) (names c)"
    and "armature < length objs"
    and "distinct (names (ob_bones (objs ! armature)))"
    and "list_all (\<lambda>n. is_paired (names (ob_bones (objs ! armature))) n \<longrightarrow>
           ''__swap_temp__'' @ n \<notin> set (names (ob_bones (objs ! armature))) \<and> length n \<le> 50)
         (names (ob_bones (objs ! armature)))"
  shows "length (mirror_names c) = length c \<and>
      (\<forall>i<length c. snd (mirror_names c ! i) = snd (c ! i) \<and>
         (\<forall>s. fst (c ! i) = ''L_'' @ s \<and> ''R_'' @ s \<in> set (names c) \<longrightarrow> fst (mirror_names c ! i) = ''R_'' @ s) \<and>
         (\<forall>s. fst (c ! i) = ''R_'' @ s \<and> ''L_'' @ s \<in> set (names c) \<longrightarrow> fst (mirror_names c ! i) = ''L_'' @ s) \<and>
         ((\<forall>s. fst (c ! i) = ''L_'' @ s \<longrightarrow> ''R_'' @ s \<notin> set (names c)) \<and>
          (\<forall>s. fst (c ! i) = ''R_'' @ s \<longrightarrow> ''L_'' @ s \<notin> set (names c))
            \<longrightarrow> fst (mirror_names c ! i) = fst (c ! i)))
    \<and> ob_bones (mirror_bone_names armature objs ! armature) = mirror_names (ob_bones (objs ! armature))
    \<and> mirror_names [(''L_Arm'', a), (''R_Arm'', b), (''L_Leg'', l)]
        = [(''R_Arm'', a), (''L_Arm'', b), (''L_Leg'', l)]"
proof (intro conjI)
  let ?c' = "map (\<lambda>(n, p). (mirrored_name (names c) n, p)) c"
  have fresh: "\<forall>n\<in>set (names c). is_paired (names c) n \<longrightarrow> ''__swap_temp__'' @ n \<notin> set (names c)"
    and short: "\<forall>n\<in>set (names c). is_paired (names c) n \<longrightarrow> length n \<le> 50"
    using assms(2) by (simp_all add: list_all_iff)
  have eq: "mirror_names c = ?c'" by (rule mirror_names_eq[OF assms(1) fresh short])
  show "length (mirror_names c) = length c" unfolding eq by simp
  show "\<forall>i<length c. snd (mirror_names c ! i) = snd (c ! i) \<and>
         (\<forall>s. fst (c ! i) = ''L_'' @ s \<and> ''R_'' @ s \<in> set (names c) \<longrightarrow> fst (mirror_names c ! i) = ''R_'' @ s) \<and>
         (\<forall>s. fst (c ! i) = ''R_'' @ s \<and> ''L_'' @ s \<in> set (names c) \<longrightarrow> fst (mirror_names c ! i) = ''L_'' @ s) \<and>
         ((\<forall>s. fst (c ! i) = ''L_'' @ s \<longrightarrow> ''R_'' @ s \<notin> set (names c)) \<and>
          (\<forall>s. fst (c ! i) = ''R_'' @ s \<longrightarrow> ''L_'' @ s \<notin> set (names c))
            \<longrightarrow> fst (mirror_names c ! i) = fst (c ! i))"
    unfolding eq using mirror_each[of _ c] by blast
next
  let ?b = "ob_bones (objs ! armature)"
  have fresh: "\<forall>n\<in>set (names ?b). is_paired (names ?b) n \<longrightarrow> ''__swap_temp__'' @ n \<notin> set (names ?b)"
    and short: "\<forall>n\<in>set (names ?b). is_paired (names ?b) n \<longrightarrow> length n \<le> 50"
    using assms(5) by (simp_all add: list_all_iff)
  show "ob_bones (mirror_bone_names armature objs ! armature) = mirror_names ?b"
    unfolding mirror_bone_names_eq[OF assms(3,4) fresh short] mirror_names_eq[OF assms(4) fresh short]
    by (rule refl)
next
  let ?x = "[(''L_Arm'', a), (''R_Arm'', b), (''L_Leg'', l)]"
  have "mirror_names ?x = map (\<lambda>(n, p). (mirrored_name (names ?x) n, p)) ?x"
    by (rule mirror_names_eq) (simp_all add: names_def is_paired_def startswith_def)
  then show "mirror_names ?x = [(''R_Arm'', a), (''L_Arm'', b), (''L_Leg'', l)]"
    by (simp add: names_def mirrored_name_def startswith_def)
qed

text \<open>
  The hypotheses of C6 hold on the vertex groups L_Hand, Spine, R_Hand and on
  an armature with the bones of these names.
\<close>

theorem mirror_swaps_pairs_witness:
  "distinct (names [(''L_Hand'', 1::nat), (''Spine'', 2), (''R_Hand'', 3)]) \<and>
   list_all (\<lambda>n. is_paired (names [(''L_Hand'', 1::nat), (''Spine'', 2), (''R_Hand'', 3)]) n \<longrightarrow>
      ''__swap_temp__'' @ n \<notin> set (names [(''L_Hand'', 1::nat), (''Spine'', 2), (''R_Hand'', 3)]) \<and> length n \<le> 50)
     (names [(''L_Hand'', 1::nat), (''Spine'', 2), (''R_Hand'', 3)]) \<and>
   (0::nat) < length [armature_object ''Rig'' [''L_Hand'', ''Spine'', ''R_Hand'']] \<and>
   distinct (names (ob_bones ([armature_object ''Rig'' [''L_Hand'', ''Spine'', ''R_Hand'']] ! 0))) \<and>
   list_all (\<lambda>n. is_paired (names (ob_bones ([armature_object ''Rig'' [''L_Hand'', ''Spine'', ''R_Hand'']] ! 0))) n \<longrightarrow>
      ''__swap_temp__'' @ n \<notin> set (names (ob_bones ([armature_object ''Rig'' [''L_Hand'', ''Spine'', ''R_Hand'']] ! 0))) \<and> length n \<le> 50)
     (names (ob_bones ([armature_object ''Rig'' [''L_Hand'', ''Spine'', ''R_Hand'']] ! 0))) \<and>
   length (mirror_names [(''L_Hand'', 1::nat), (''Spine'', 2), (''R_Hand'', 3)]) = 3 \<and>
   fst (mirror_names [(''L_Hand'', 1::nat), (''Spine'', 2), (''R_Hand'', 3)] ! 0) = ''R_Hand'' \<and>
   fst (mirror_names [(''L_Hand'', 1::nat), (''Spine'', 2), (''R_Hand'', 3)] ! 1) = ''Spine'' \<and>
   fst (mirror_names [(''L_Hand'', 1::nat), (''Spine'', 2), (''R_Hand'', 3)] ! 2) = ''L_Hand'' \<and>
   snd (mirror_names [(''L_Hand'', 1::nat), (''Spine'', 2), (''R_Hand'', 3)] ! 0) = 1 \<and>
   snd (mirror_names [(''L_Hand'', 1::nat), (''Spine'', 2), (''R_Hand'', 3)] ! 1) = 2 \<and>
   snd (mirror_names [(''L_Hand'', 1::nat), (''Spine'', 2), (''R_Hand'', 3)] ! 2) = 3 \<and>
   ob_bones (mirror_bone_names 0 [armature_object ''Rig'' [''L_Hand'', ''Spine'', ''R_Hand'']] ! 0)
     = mirror_names (ob_bones ([armature_object ''Rig'' [''L_Hand'', ''Spine'', ''R_Hand'']] ! 0))"
proof -
  let ?c = "[(''L_Hand'', 1::nat), (''Spine'', 2), (''R_Hand'', 3)]"
  let ?o = "[armature_object ''Rig'' [''L_Hand'', ''Spine'', ''R_Hand'']]"
  have d: "distinct (names ?c)" by (simp add: names_def)
  have f: "list_all (\<lambda>n. is_paired (names ?c) n \<longrightarrow>
      ''__swap_temp__'' @ n \<notin> set (names ?c) \<and> length n \<le> 50) (names ?c)"
    by (simp add: names_def)
  have a: "(0::nat) < length ?o" by simp
  have db: "distinct (names (ob_bones (?o ! 0)))" by (simp add: names_def armature_object_def)
  have fb: "list_all (\<lambda>n. is_paired (names (ob_bones (?o ! 0))) n \<longrightarrow>
      ''__swap_temp__'' @ n \<notin> set (names (ob_bones (?o ! 0))) \<and> length n \<le> 50) (names (ob_bones (?o ! 0)))"
    by (simp add: names_def armature_object_def)
  note inst = mirror_swaps_pairs[OF d f a db fb, where a = 0 and b = 0 and l = 0]
  note len = inst[THEN conjunct1]
  note each = inst[THEN conjunct2, THEN conjunct1]
  note bones = inst[THEN conjunct2, THEN conjunct2, THEN conjunct1]
  have i0: "0 < length ?c" and i1: "1 < length ?c" and i2: "2 < length ?c" by simp_all
  note e0 = each[THEN spec, of 0, THEN mp, OF i0]
  note e1 = each[THEN spec, of 1, THEN mp, OF i1]
  note e2 = each[THEN spec, of 2, THEN mp, OF i2]
  have p0: "fst (?c ! 0) = ''L_'' @ ''Hand'' \<and> ''R_'' @ ''Hand'' \<in> set (names ?c)"
    by (simp add: names_def)
  have p2: "fst (?c ! 2) = ''R_'' @ ''Hand'' \<and> ''L_'' @ ''Hand'' \<in> set (names ?c)"
    by (simp add: names_def)
  have p1: "(\<forall>s. fst (?c ! 1) = ''L_'' @ s \<longrightarrow> ''R_'' @ s \<notin> set (names ?c)) \<and>
          (\<forall>s. fst (?c ! 1) = ''R_'' @ s \<longrightarrow> ''L_'' @ s \<notin> set (names ?c))"
    by simp
  have n0: "fst (mirror_names ?c ! 0) = ''R_'' @ ''Hand''"
    using e0[THEN conjunct2, THEN conjunct1, THEN spec, of "''Hand''", THEN mp, OF p0] .
  have n2: "fst (mirror_names ?c ! 2) = ''L_'' @ ''Hand''"
    using e2[THEN conjunct2, THEN conjunct2, THEN conjunct1, THEN spec, of "''Hand''", THEN mp, OF p2] .
  have n1: "fst (mirror_names ?c ! 1) = fst (?c ! 1)"
    using e1[THEN conjunct2, THEN conjunct2, THEN conjunct2, THEN mp, OF p1] .
  have s0: "snd (mirror_names ?c ! 0) = 1" using e0[THEN conjunct1] by simp
  have s1: "snd (mirror_names ?c ! 1) = 2" using e1[THEN conjunct1] by simp
  have s2: "snd (mirror_names ?c ! 2) = 3" using e2[THEN conjunct1] by simp
  have l3: "length (mirror_names ?c) = 3" using len by simp
  have m0: "fst (mirror_names ?c ! 0) = ''R_Hand''" using n0 by simp
  have m1: "fst (mirror_names ?c ! 1) = ''Spine''" using n1 by simp
  have m2: "fst (mirror_names ?c ! 2) = ''L_Hand''" using n2 by simp
  show ?thesis
    by (intro conjI) (rule d f a db fb l3 m0 m1 m2 s0 s1 s2 bones)+
qed

text \<open>
  Claim C6 as stated (for every container) fails in two ways. When a member
  already carries the transient name of a paired member, the host gives the
  renamed member another name (\<open>__swap_temp__R_Arm.001\<close>), and the third loop
  renames the member that carried the transient name from the start. When the
  paired names are longer than 50 bytes, the host cuts the transient names to
  63 bytes, the third loop does not find them, and both members keep their
  transient names.
\<close>

theorem mirror_temp_clash_counterexample:
  "mirror_names [(''L_Arm'', 0::nat), (''R_Arm'', 1), (''__swap_temp__R_Arm'', 2)]
     = [(''__swap_temp__R_Arm.001'', 0), (''L_Arm'', 1), (''R_Arm'', 2)] \<and>
   mirror_names [(''L_'' @ replicate 49 (CHR ''a''), 0::nat), (''R_'' @ replicate 49 (CHR ''a''), 1)]
     = [(''__swap_temp__R_'' @ replicate 48 (CHR ''a''), 0),
        (''__swap_temp__L_'' @ replicate 48 (CHR ''a''), 1)]"
  by code_simp

lemma mirrored_twice:
  fixes c :: "'a container"
  assumes d: "distinct (names c)"
    and no_temp: "\<forall>n\<in>set (names c). \<not> startswith n ''__swap_temp__''"
    and short: "\<forall>n\<in>set (names c). is_paired (names c) n \<longrightarrow> length n \<le> 50"
    and c'_def: "c' = map (\<lambda>(n, p). (mirrored_name (names c) n, p)) c"
  shows "distinct (names c')"
    and "\<forall>n\<in>set (names c'). is_paired (names c') n \<longrightarrow> ''__swap_temp__'' @ n \<notin> set (names c')"
    and "\<forall>n\<in>set (names c'). is_paired (names c') n \<longrightarrow> length n \<le> 50"
    and "map (\<lambda>(n, p). (mirrored_name (names c') n, p)) c' = c"
proof -
  let ?mir = "mirrored_name (names c)"
  have nms': "names c' = map ?mir (names c)" unfolding c'_def by (rule names_map_mirrored)
  have set': "set (names c') = set (names c)"
  proof
    show "set (names c') \<subseteq> set (names c)" using mirrored_in_set by (auto simp: nms')
    show "set (names c) \<subseteq> set (names c')"
    proof
      fix n assume n: "n \<in> set (names c)"
      then have "?mir n \<in> set (names c)" "?mir (?mir n) = n"
        by (simp_all add: mirrored_in_set mirrored_involution)
      then show "n \<in> set (names c')" unfolding nms' by (metis image_eqI set_map)
    qed
  qed
  have paired': "\<And>n. is_paired (names c') n = is_paired (names c) n"
    by (simp add: is_paired_def set')
  show "distinct (names c')"
    using d mirrored_inj_on by (simp add: nms' distinct_map)
  show "\<forall>n\<in>set (names c'). is_paired (names c') n \<longrightarrow> ''__swap_temp__'' @ n \<notin> set (names c')"
    using no_temp temp_of_prefix unfolding set' by blast
  show "\<forall>n\<in>set (names c'). is_paired (names c') n \<longrightarrow> length n \<le> 50"
    using short unfolding set' paired' by blast
  show "map (\<lambda>(n, p). (mirrored_name (names c') n, p)) c' = c"
  proof -
    have "\<And>n p. (n, p) \<in> set c \<Longrightarrow> mirrored_name (names c') (?mir n) = n"
    proof -
      fix n p assume "(n, p) \<in> set c"
      then have "n \<in> set (names c)" by (force simp: names_def)
      then show "mirrored_name (names c') (?mir n) = n"
        using mirrored_name_cong[OF set'] by (simp add: mirrored_involution)
    qed
    then have "\<And>x. x \<in> set c \<Longrightarrow> (case (case x of (n, p) \<Rightarrow> (?mir n, p)) of (n, p) \<Rightarrow> (mirrored_name (names c') n, p)) = x"
      by (auto simp: case_prod_beta prod_eq_iff simp del: names_map_mirrored)
    then show ?thesis unfolding c'_def map_map comp_def by (intro map_idI)
  qed
qed

text \<open>
  Claim C10, as amended. For every container of vertex groups with distinct
  member names, none of which begins with \<open>__swap_temp__\<close>, and in which no
  paired member has a name of more than 50 bytes, mirroring the mirrored
  container gives back the original container: every member has its original
  name (and payload) again. The same holds of the bones of an armature: after
  two runs of the function on them, the armature has its original bones.
\<close>

theorem mirror_twice_restores:
  fixes c :: "'a container"
  assumes "distinct (names c)"
    and "list_all (\<lambda>n. \<not> startswith n ''__swap_temp__'') (names c)"
    and "list_all (\<lambda>n. is_paired (names c) n \<longrightarrow> length n \<le> 50) (names c)"
    and "armature < length objs"
    and "distinct (names (ob_bones (objs ! armature)))"
    and "list_all (\<lambda>n. \<not> startswith n ''__swap_temp__'') (names (ob_bones (objs ! armature)))"
    and "list_all (\<lambda>n. is_paired (names (ob_bones (objs ! armature))) n \<longrightarrow> length n \<le> 50)
           (names (ob_bones (objs ! armature)))"
  shows "mirror_names (mirror_names c) = c \<and>
     ob_bones (mirror_bone_names armature (mirror_bone_names armature objs) ! armature)
       = ob_bones (objs ! armature)"
proof
  have no_temp: "\<forall>n\<in>set (names c). \<not> startswith n ''__swap_temp__''"
    using assms(2) by (simp add: list_all_iff)
  have short: "\<forall>n\<in>set (names c). is_paired (names c) n \<longrightarrow> length n \<le> 50"
    using assms(3) by (simp add: list_all_iff)
  have fresh: "\<forall>n\<in>set (names c). is_paired (names c) n \<longrightarrow> ''__swap_temp__'' @ n \<notin> set (names c)"
    using no_temp temp_of_prefix by blast
  note first = mirror_names_eq[OF assms(1) fresh short]
  note tw = mirrored_twice[OF assms(1) no_temp short refl]
  show "mirror_names (mirror_names c) = c"
    unfolding first mirror_names_eq[OF tw(1,2,3)] by (rule tw(4))
next
  let ?b = "ob_bones (objs ! armature)"
  let ?o1 = "mirror_bone_names armature objs"
  have no_temp: "\<forall>n\<in>set (names ?b). \<not> startswith n ''__swap_temp__''"
    using assms(6) by (simp add: list_all_iff)
  have short: "\<forall>n\<in>set (names ?b). is_paired (names ?b) n \<longrightarrow> length n \<le> 50"
    using assms(7) by (simp add: list_all_iff)
  have fresh: "\<forall>n\<in>set (names ?b). is_paired (names ?b) n \<longrightarrow> ''__swap_temp__'' @ n \<notin> set (names ?b)"
    using no_temp temp_of_prefix by blast
  note first = mirror_bone_names_eq[OF assms(4,5) fresh short]
  note tw = mirrored_twice[OF assms(5) no_temp short refl]
  have a1: "armature < length ?o1" using assms(4) by simp
  show "ob_bones (mirror_bone_names armature ?o1 ! armature) = ?b"
    using mirror_bone_names_eq[OF a1, unfolded first, OF tw(1,2,3)] tw(4) by simp
qed

text \<open>
  The hypotheses of C10 hold on the vertex groups L_Arm, R_Arm, L_Leg and on
  an armature with the bones of these names.
\<close>

theorem mirror_twice_restores_witness:
  "distinct (names [(''L_Arm'', 1::nat), (''R_Arm'', 2), (''L_Leg'', 3)]) \<and>
   list_all (\<lambda>n. \<not> startswith n ''__swap_temp__'') (names [(''L_Arm'', 1::nat), (''R_Arm'', 2), (''L_Leg'', 3)]) \<and>
   list_all (\<lambda>n. is_paired (names [(''L_Arm'', 1::nat), (''R_Arm'', 2), (''L_Leg'', 3)]) n \<longrightarrow> length n \<le> 50)
     (names [(''L_Arm'', 1::nat), (''R_Arm'', 2), (''L_Leg'', 3)]) \<and>
   (0::nat) < length [armature_object ''Rig'' [''L_Arm'', ''R_Arm'', ''L_Leg'']] \<and>
   distinct (names (ob_bones ([armature_object ''Rig'' [''L_Arm'', ''R_Arm'', ''L_Leg'']] ! 0))) \<and>
   list_all (\<lambda>n. \<not> startswith n ''__swap_temp__'')
     (names (ob_bones ([armature_object ''Rig'' [''L_Arm'', ''R_Arm'', ''L_Leg'']] ! 0))) \<and>
   list_all (\<lambda>n. is_paired (names (ob_bones ([armature_object ''Rig'' [''L_Arm'', ''R_Arm'', ''L_Leg'']] ! 0))) n
               \<longrightarrow> length n \<le> 50)
     (names (ob_bones ([armature_object ''Rig'' [''L_Arm'', ''R_Arm'', ''L_Leg'']] ! 0))) \<and>
   mirror_names (mirror_names [(''L_Arm'', 1::nat), (''R_Arm'', 2), (''L_Leg'', 3)])
     = [(''L_Arm'', 1::nat), (''R_Arm'', 2), (''L_Leg'', 3)] \<and>
   ob_bones (mirror_bone_names 0 (mirror_bone_names 0 [armature_object ''Rig'' [''L_Arm'', ''R_Arm'', ''L_Leg'']]) ! 0)
     = ob_bones ([armature_object ''Rig'' [''L_Arm'', ''R_Arm'', ''L_Leg'']] ! 0)"
proof -
  let ?c = "[(''L_Arm'', 1::nat), (''R_Arm'', 2), (''L_Leg'', 3)]"
  let ?o = "[armature_object ''Rig'' [''L_Arm'', ''R_Arm'', ''L_Leg'']]"
  have d: "distinct (names ?c)" by (simp add: names_def)
  have f: "list_all (\<lambda>n. \<not> startswith n ''__swap_temp__'') (names ?c)"
    by (simp add: names_def startswith_def)
  have s: "list_all (\<lambda>n. is_paired (names ?c) n \<longrightarrow> length n \<le> 50) (names ?c)"
    by (simp add: names_def)
  have a: "(0::nat) < length ?o" by simp
  have db: "distinct (names (ob_bones (?o ! 0)))" by (simp add: names_def armature_object_def)
  have fb: "list_all (\<lambda>n. \<not> startswith n ''__swap_temp__'') (names (ob_bones (?o ! 0)))"
    by (simp add: names_def armature_object_def startswith_def)
  have sb: "list_all (\<lambda>n. is_paired (names (ob_bones (?o ! 0))) n \<longrightarrow> length n \<le> 50)
              (names (ob_bones (?o ! 0)))"
    by (simp add: names_def armature_object_def)
  note inst = mirror_twice_restores[OF d f s a db fb sb]
  show ?thesis
    by (intro conjI) (rule d f s a db fb sb inst[THEN conjunct1] inst[THEN conjunct2])+
qed

text \<open>
  Claim C10 as stated fails on paired names of more than 50 bytes: no name
  begins with \<open>__swap_temp__\<close>, the first mirror leaves both members with
  transient names cut to 63 bytes, and the second mirror finds no pair.
\<close>

theorem mirror_twice_long_names_counterexample:
  "list_all (\<lambda>n. \<not> startswith n ''__swap_temp__'')
     (names [(''L_'' @ replicate 49 (CHR ''a''), 0::nat), (''R_'' @ replicate 49 (CHR ''a''), 1)]) \<and>
   mirror_names (mirror_names [(''L_'' @ replicate 49 (CHR ''a''), 0::nat), (''R_'' @ replicate 49 (CHR ''a''), 1)])
     = [(''__swap_temp__R_'' @ replicate 48 (CHR ''a''), 0),
        (''__swap_temp__L_'' @ replicate 48 (CHR ''a''), 1)]"
  by code_simp

section \<open>Verification: the prefix resolver\<close>

lemma first_prefix_match_Some:
  "first_prefix_match l ps = Some p \<Longrightarrow>
   \<exists>pre post. ps = pre @ p # post \<and> p \<noteq> '''' \<and> startswith l (lower p) \<and>
     (\<forall>q\<in>set pre. q = '''' \<or> \<not> startswith l (lower q))"
proof (induction ps)
  case Nil
  then show ?case by simp
next
  case (Cons a ps)
  show ?case
  proof (cases "a \<noteq> '''' \<and> startswith l (lower a)")
    case True
    then have "a = p" using Cons.prems by simp
    then show ?thesis using True by (intro exI[of _ "[]"] exI[of _ ps]) simp
  next
    case False
    then have "first_prefix_match l ps = Some p" using Cons.prems by auto
    from Cons.IH[OF this] obtain pre post where
      "ps = pre @ p # post" "p \<noteq> ''''" "startswith l (lower p)"
      "\<forall>q\<in>set pre. q = '''' \<or> \<not> startswith l (lower q)" by blast
    then show ?thesis using False by (intro exI[of _ "a # pre"] exI[of _ post]) auto
  qed
qed

lemma first_prefix_match_first:
  "p \<noteq> '''' \<Longrightarrow> startswith l (lower p) \<Longrightarrow>
   \<forall>q\<in>set pre. q = '''' \<or> \<not> startswith l (lower q) \<Longrightarrow>
   first_prefix_match l (pre @ p # post) = Some p"
  by (induction pre) auto

lemma first_prefix_match_None:
  "first_prefix_match l ps = None \<longleftrightarrow> (\<forall>q\<in>set ps. q = '''' \<or> \<not> startswith l (lower q))"
  by (induction ps) auto

lemma map_of_in_keys: "map_of d k \<noteq> None \<longleftrightarrow> k \<in> set (map fst d)"
  by (simp add: map_of_eq_None_iff)

text \<open>
  Claim C3. Prefix resolution selects the first non-empty prefix, in stored
  order, that is a case-insensitive prefix of the object's name (first match,
  not longest match); when no non-empty prefix matches it selects the empty
  prefix if the table has one, and nothing otherwise, and then the object's
  container (the vertex groups of a mesh, the bones of an armature) is left as
  it is. For the name Char_Body and the prefixes Char_
  and the empty one, in either order, Char_ is selected; against Ch and Char_
  the earlier and shorter Ch is selected.
\<close>

theorem prefix_resolution_first_match:
  fixes current_rules :: "(string \<times> ruleset) list"
  shows
  "(\<forall>pre p post. map fst current_rules = pre @ p # post \<and> p \<noteq> '''' \<and> ci_prefix p obj_name \<and>
       (\<forall>q\<in>set pre. q \<noteq> '''' \<longrightarrow> \<not> ci_prefix q obj_name)
       \<longrightarrow> matched_prefix obj_name current_rules = Some p) \<and>
   ((\<forall>q\<in>set (map fst current_rules). q \<noteq> '''' \<longrightarrow> \<not> ci_prefix q obj_name) \<longrightarrow>
       matched_prefix obj_name current_rules
         = (if '''' \<in> set (map fst current_rules) then Some '''' else None)) \<and>
   (matched_prefix obj_name current_rules = None \<longrightarrow>
       rename_groups_of current_rules obj_name nverts groups = Inr (groups, []) \<and>
       rename_bones_of current_rules obj_name armature objs = Inr (objs, []) \<and>
       undo_of current_rules obj_name groups = Inr groups) \<and>
   matched_prefix ''Char_Body'' [(''Char_'', r1), ('''', r2)] = Some ''Char_'' \<and>
   matched_prefix ''Char_Body'' [('''', r2), (''Char_'', r1)] = Some ''Char_'' \<and>
   matched_prefix ''Char_Body'' [(''Ch'', r1), (''Char_'', r2)] = Some ''Ch''"
proof (intro conjI allI impI)
  fix pre p post
  assume a: "map fst current_rules = pre @ p # post \<and> p \<noteq> '''' \<and> ci_prefix p obj_name \<and>
       (\<forall>q\<in>set pre. q \<noteq> '''' \<longrightarrow> \<not> ci_prefix q obj_name)"
  then have "first_prefix_match (lower obj_name) (map fst current_rules) = Some p"
    using first_prefix_match_first[of p "lower obj_name" pre post]
    by (auto simp: ci_prefix_def)
  then show "matched_prefix obj_name current_rules = Some p"
    by (simp add: matched_prefix_def)
next
  assume "\<forall>q\<in>set (map fst current_rules). q \<noteq> '''' \<longrightarrow> \<not> ci_prefix q obj_name"
  then have "first_prefix_match (lower obj_name) (map fst current_rules) = None"
    unfolding first_prefix_match_None ci_prefix_def by blast
  then show "matched_prefix obj_name current_rules
         = (if '''' \<in> set (map fst current_rules) then Some '''' else None)"
    using map_of_in_keys[of current_rules "''''"] by (simp add: matched_prefix_def)
next
  assume "matched_prefix obj_name current_rules = None"
  then show "rename_groups_of current_rules obj_name nverts groups = Inr (groups, [])"
    "rename_bones_of current_rules obj_name armature objs = Inr (objs, [])"
    "undo_of current_rules obj_name groups = Inr groups"
    by (simp_all add: rename_groups_of_def rename_bones_of_def undo_of_def)
next
  show "matched_prefix ''Char_Body'' [(''Char_'', r1), ('''', r2)] = Some ''Char_''"
    by (simp add: matched_prefix_def startswith_def lower_def lower_char_def)
  show "matched_prefix ''Char_Body'' [('''', r2), (''Char_'', r1)] = Some ''Char_''"
    by (simp add: matched_prefix_def startswith_def lower_def lower_char_def)
  show "matched_prefix ''Char_Body'' [(''Ch'', r1), (''Char_'', r2)] = Some ''Ch''"
    by (simp add: matched_prefix_def startswith_def lower_def lower_char_def)
qed

text \<open>C3 at concrete tables: a first match, the empty fallback, and no match.\<close>

theorem prefix_resolution_first_match_witness:
  "matched_prefix ''CHAR_body'' [(''Arm_'', []), (''Cha'', [(''a'', ''b'')]), (''Char_'', []), ('''', [])]
     = Some ''Cha'' \<and>
   matched_prefix ''Leg'' [(''Arm_'', [(''a'', ''b'')]), ('''', [])] = Some '''' \<and>
   matched_prefix ''Leg'' [(''Arm_'', [(''a'', ''b'')])] = None \<and>
   rename_groups_of [(''Arm_'', [(''a'', ''b'')])] ''Leg'' 1 [(''a'', [(0, 1)])]
     = Inr ([(''a'', [(0, 1)])], [])"
proof -
  let ?t1 = "[(''Arm_'', []), (''Cha'', [(''a'', ''b'')]), (''Char_'', []), ('''', [])] :: (string \<times> ruleset) list"
  let ?t2 = "[(''Arm_'', [(''a'', ''b'')]), ('''', [])] :: (string \<times> ruleset) list"
  let ?t3 = "[(''Arm_'', [(''a'', ''b'')])] :: (string \<times> ruleset) list"
  have h1: "map fst ?t1 = [''Arm_''] @ ''Cha'' # [''Char_'', ''''] \<and> ''Cha'' \<noteq> '''' \<and>
      ci_prefix ''Cha'' ''CHAR_body'' \<and> (\<forall>q\<in>set [''Arm_'']. q \<noteq> '''' \<longrightarrow> \<not> ci_prefix q ''CHAR_body'')"
    by code_simp
  have c1: "matched_prefix ''CHAR_body'' ?t1 = Some ''Cha''"
    using prefix_resolution_first_match[of ?t1 "''CHAR_body''", THEN conjunct1, rule_format, OF h1] .
  have h2: "\<forall>q\<in>set (map fst ?t2). q \<noteq> '''' \<longrightarrow> \<not> ci_prefix q ''Leg''"
    by code_simp
  have c2: "matched_prefix ''Leg'' ?t2 = Some ''''"
    using prefix_resolution_first_match[of ?t2 "''Leg''", THEN conjunct2, THEN conjunct1, THEN mp, OF h2]
    by simp
  have h3: "\<forall>q\<in>set (map fst ?t3). q \<noteq> '''' \<longrightarrow> \<not> ci_prefix q ''Leg''"
    by code_simp
  have c3: "matched_prefix ''Leg'' ?t3 = None"
    using prefix_resolution_first_match[of ?t3 "''Leg''", THEN conjunct2, THEN conjunct1, THEN mp, OF h3]
    by simp
  have c4: "rename_groups_of ?t3 ''Leg'' 1 [(''a'', [(0, 1)])] = Inr ([(''a'', [(0, 1)])], [])"
    using prefix_resolution_first_match[of ?t3 "''Leg''" 1 "[(''a'', [(0, 1)])]",
        THEN conjunct2, THEN conjunct2, THEN conjunct1, rule_format, OF c3]
    by simp
  show ?thesis using c1 c2 c3 c4 by simp
qed

section \<open>Verification: the rule store\<close>

lemma dict_set_fresh: "k \<notin> set (map fst d) \<Longrightarrow> dict_set d k v = d @ [(k, v)]"
  by (induction d) auto

lemma dict_set_present:
  "distinct (map fst d) \<Longrightarrow> i < length d \<Longrightarrow> fst (d ! i) = k \<Longrightarrow> dict_set d k v = d[i := (k, v)]"
proof (induction d arbitrary: i)
  case Nil
  then show ?case by simp
next
  case (Cons a d)
  show ?case
  proof (cases i)
    case 0
    then show ?thesis using Cons.prems by (cases a) auto
  next
    case (Suc j)
    then have "fst a \<noteq> k" using Cons.prems by (cases a) (auto simp: nth_mem)
    then show ?thesis using Suc Cons by (cases a) auto
  qed
qed

lemma rename_key_loop_eq:
  "distinct (map fst acc @ map (\<lambda>k. if k = old then new else k) (map fst rest)) \<Longrightarrow>
   rename_key_loop rest old new acc
     = acc @ map (\<lambda>(k, v). (if k = old then new else k, v)) rest"
proof (induction rest arbitrary: acc)
  case Nil
  then show ?case by simp
next
  case (Cons a rest)
  obtain k v where a: "a = (k, v)" by (cases a)
  let ?k' = "if k = old then new else k"
  have fresh: "?k' \<notin> set (map fst acc)" using Cons.prems a by auto
  have "dict_set acc ?k' v = acc @ [(?k', v)]" using fresh by (rule dict_set_fresh)
  then have step: "rename_key_loop (a # rest) old new acc = rename_key_loop rest old new (acc @ [(?k', v)])"
    by (cases "k = old") (simp_all add: a)
  have "distinct (map fst (acc @ [(?k', v)]) @ map (\<lambda>k. if k = old then new else k) (map fst rest))"
    using Cons.prems a by auto
  from Cons.IH[OF this] show ?case using step a by simp
qed

lemma map_rename_nth:
  assumes "distinct (map fst d)" "i < length d" "d ! i = (old, v)"
  shows "map (\<lambda>(k, v). (if k = old then new else k, v)) d = d[i := (new, v)]"
proof (rule nth_equalityI)
  show "length (map (\<lambda>(k, v). (if k = old then new else k, v)) d) = length (d[i := (new, v)])" by simp
next
  fix j assume "j < length (map (\<lambda>(k, v). (if k = old then new else k, v)) d)"
  then have j: "j < length d" by simp
  show "map (\<lambda>(k, v). (if k = old then new else k, v)) d ! j = d[i := (new, v)] ! j"
  proof (cases "j = i")
    case True
    then show ?thesis using assms by simp
  next
    case False
    have "map fst d ! j \<noteq> map fst d ! i"
      using assms(1,2) j False by (simp only: nth_eq_iff_index_eq length_map not_False_eq_True)
    then have "fst (d ! j) \<noteq> old" using assms(2,3) j by simp
    then show ?thesis using False j by (simp add: case_prod_beta)
  qed
qed

lemma rename_key_position:
  assumes d: "distinct (map fst d)" and i: "i < length d" and at: "d ! i = (old, v)"
    and new: "new \<notin> set (map fst d) \<or> new = old"
  shows "rename_key_in_ordered_dict d old new = d[i := (new, v)]"
proof -
  have inj: "inj_on (\<lambda>k. if k = old then new else k) (set (map fst d))"
  proof (rule inj_onI)
    fix x y assume "x \<in> set (map fst d)" "y \<in> set (map fst d)"
      "(if x = old then new else x) = (if y = old then new else y)"
    then show "x = y" using new by (auto split: if_splits)
  qed
  have "distinct (map (\<lambda>k. if k = old then new else k) (map fst d))"
    unfolding distinct_map[of "\<lambda>k. if k = old then new else k" "map fst d"] using d inj by blast
  then have "rename_key_in_ordered_dict d old new = map (\<lambda>(k, v). (if k = old then new else k, v)) d"
    unfolding rename_key_in_ordered_dict_def using rename_key_loop_eq[of "[]" old new d] by simp
  then show ?thesis using map_rename_nth[OF d i at] by simp
qed

text \<open>
  Editing the old-name key of the rule at position i of a ruleset with
  distinct keys, to a key that no other rule has, keeps the rule at position
  i, among the same siblings. When the new key is the key of a different
  rule, the callback leaves the ruleset as it is and raises \<open>AttributeError\<close>;
  the edit fields keep the values of the rejected edit.
\<close>

lemma edit_rule_key_position:
  fixes d :: ruleset
  assumes "distinct (map fst d)" and "i < length d" and "d ! i = (original, new)"
  shows "(new_original \<notin> set (map fst d) \<or> new_original = original \<longrightarrow>
            rename_key_in_ordered_dict d original new_original = d[i := (new_original, new)] \<and>
            (new_original \<noteq> original \<or> new_new \<noteq> new \<longrightarrow>
               update_rule prefix original new d new_original new_new
                 = \<lparr>edited_rules = d[i := (new_original, new_new)], original_prop = new_original,
                    new_prop = new_new, raised = None\<rparr>)) \<and>
         (new_original \<in> set (map fst d) \<and> new_original \<noteq> original \<longrightarrow>
            update_rule prefix original new d new_original new_new
              = \<lparr>edited_rules = d, original_prop = new_original, new_prop = new_new,
                 raised = Some AttributeError\<rparr>)"
proof (intro conjI impI)
  assume ok: "new_original \<notin> set (map fst d) \<or> new_original = original"
  show pos: "rename_key_in_ordered_dict d original new_original = d[i := (new_original, new)]"
    by (rule rename_key_position[OF assms ok])
  assume changed: "new_original \<noteq> original \<or> new_new \<noteq> new"
  have nocoll: "\<not> (map_of d new_original \<noteq> None \<and> new_original \<noteq> original)"
    using ok map_of_in_keys[of d new_original] by auto
  have dd: "distinct (map fst (d[i := (new_original, new)]))"
  proof -
    have "map fst (d[i := (new_original, new)]) = (map fst d)[i := new_original]"
      by (simp add: map_update)
    moreover have "distinct ((map fst d)[i := new_original])"
      using assms ok
      by (metis distinct_list_update fst_conv length_map list_update_id nth_map set_remove1_eq in_set_remove1)
    ultimately show ?thesis by simp
  qed
  have "dict_set (d[i := (new_original, new)]) new_original new_new = (d[i := (new_original, new)])[i := (new_original, new_new)]"
    using dict_set_present[OF dd, of i new_original new_new] assms(2) by simp
  then show "update_rule prefix original new d new_original new_new
                 = \<lparr>edited_rules = d[i := (new_original, new_new)], original_prop = new_original,
                    new_prop = new_new, raised = None\<rparr>"
    using changed nocoll pos unfolding update_rule_def by auto
next
  assume coll: "new_original \<in> set (map fst d) \<and> new_original \<noteq> original"
  then have c: "map_of d new_original \<noteq> None \<and> new_original \<noteq> original"
    using map_of_in_keys[of d new_original] by simp
  show "update_rule prefix original new d new_original new_new
              = \<lparr>edited_rules = d, original_prop = new_original, new_prop = new_new,
                 raised = Some AttributeError\<rparr>"
    using c unfolding update_rule_def by simp
qed

text \<open>
  Claim C8, at the ruleset a:x, b:y, c:z of the claim. Editing the key of b to
  bb keeps the rule at its position: the ruleset is a:x, bb:y, c:z. Editing
  the key of b to a, the key of a different rule, is to be rejected with the
  prior key and value restored. The callback leaves the ruleset as it is, but
  it raises \<open>AttributeError\<close> at \<open>self.report\<close>, before the two assignments
  that restore the edit fields: the fields keep a and y and are not set back
  to b and y.
\<close>

theorem edit_rule_collision_not_restored:
  "update_rule ''p'' ''b'' ''y'' [(''a'', ''x''), (''b'', ''y''), (''c'', ''z'')] ''bb'' ''y''
     = \<lparr>edited_rules = [(''a'', ''x''), (''bb'', ''y''), (''c'', ''z'')],
        original_prop = ''bb'', new_prop = ''y'', raised = None\<rparr> \<and>
   update_rule ''p'' ''b'' ''y'' [(''a'', ''x''), (''b'', ''y''), (''c'', ''z'')] ''a'' ''y''
     = \<lparr>edited_rules = [(''a'', ''x''), (''b'', ''y''), (''c'', ''z'')],
        original_prop = ''a'', new_prop = ''y'', raised = Some AttributeError\<rparr>"
  by (simp add: update_rule_def rename_key_in_ordered_dict_def)

text \<open>
  C8 at the rejected edit: the ruleset is unchanged, the exception is raised,
  and the old-name field holds a, not b.
\<close>

theorem edit_rule_collision_not_restored_witness:
  "edited_rules (update_rule ''p'' ''b'' ''y'' [(''a'', ''x''), (''b'', ''y''), (''c'', ''z'')] ''a'' ''y'')
     = [(''a'', ''x''), (''b'', ''y''), (''c'', ''z'')] \<and>
   raised (update_rule ''p'' ''b'' ''y'' [(''a'', ''x''), (''b'', ''y''), (''c'', ''z'')] ''a'' ''y'')
     = Some AttributeError \<and>
   original_prop (update_rule ''p'' ''b'' ''y'' [(''a'', ''x''), (''b'', ''y''), (''c'', ''z'')] ''a'' ''y'')
     = ''a''"
  using edit_rule_collision_not_restored by simp

text \<open>
  Claim C9. Deleting the preset named Default is cancelled with a warning and
  leaves the store unchanged, whatever other presets exist; deleting the only
  preset of the store is cancelled and leaves the store unchanged.
\<close>

theorem remove_preset_protected:
  "(current_preset st = ''Default'' \<and> ''Default'' \<in> set (map fst (presets st)) \<longrightarrow>
      remove_preset_execute st = (CANCELLED, [(WARNING, ''Cannot delete the Default preset.'')], st)) \<and>
   (map fst (presets st) = [current_preset st] \<longrightarrow>
      fst (remove_preset_execute st) = CANCELLED \<and> snd (snd (remove_preset_execute st)) = st)"
proof (intro conjI impI)
  assume "current_preset st = ''Default'' \<and> ''Default'' \<in> set (map fst (presets st))"
  then show "remove_preset_execute st = (CANCELLED, [(WARNING, ''Cannot delete the Default preset.'')], st)"
    using map_of_in_keys[of "presets st" "''Default''"] by (simp add: remove_preset_execute_def)
next
  assume one: "map fst (presets st) = [current_preset st]"
  then have "map_of (presets st) (current_preset st) \<noteq> None"
    using map_of_in_keys[of "presets st" "current_preset st"] by simp
  moreover have "length (presets st) = 1" using one by (metis length_map length_Cons list.size(3) One_nat_def)
  ultimately show "fst (remove_preset_execute st) = CANCELLED"
    "snd (snd (remove_preset_execute st)) = st"
    by (simp_all add: remove_preset_execute_def Let_def)
qed

text \<open>C9 at a store with two presets and at a store with one.\<close>

theorem remove_preset_protected_witness:
  "remove_preset_execute
     \<lparr>presets = [(''Default'', []), (''Mine'', [(''Char_'', [(''a'', ''b'')])])],
      current_preset = ''Default'', preset_dropdown = ''Default''\<rparr>
     = (CANCELLED, [(WARNING, ''Cannot delete the Default preset.'')],
        \<lparr>presets = [(''Default'', []), (''Mine'', [(''Char_'', [(''a'', ''b'')])])],
         current_preset = ''Default'', preset_dropdown = ''Default''\<rparr>) \<and>
   fst (remove_preset_execute
     \<lparr>presets = [(''Mine'', [])], current_preset = ''Mine'', preset_dropdown = ''Mine''\<rparr>) = CANCELLED \<and>
   snd (snd (remove_preset_execute
     \<lparr>presets = [(''Mine'', [])], current_preset = ''Mine'', preset_dropdown = ''Mine''\<rparr>))
     = \<lparr>presets = [(''Mine'', [])], current_preset = ''Mine'', preset_dropdown = ''Mine''\<rparr>"
proof -
  let ?s1 = "\<lparr>presets = [(''Default'', []), (''Mine'', [(''Char_'', [(''a'', ''b'')])])],
      current_preset = ''Default'', preset_dropdown = ''Default''\<rparr>"
  let ?s2 = "\<lparr>presets = [(''Mine'', [])], current_preset = ''Mine'', preset_dropdown = ''Mine''\<rparr>"
  have h1: "current_preset ?s1 = ''Default'' \<and> ''Default'' \<in> set (map fst (presets ?s1))" by simp
  have h2: "map fst (presets ?s2) = [current_preset ?s2]" by simp
  from remove_preset_protected[of ?s1, THEN conjunct1, THEN mp, OF h1]
    remove_preset_protected[of ?s2, THEN conjunct2, THEN mp, OF h2]
  show ?thesis by simp
qed

text \<open>A preset that is neither the default nor the last one is deleted.\<close>

lemma remove_preset_deletes:
  "remove_preset_execute
     \<lparr>presets = [(''Default'', []), (''Mine'', [])], current_preset = ''Mine'', preset_dropdown = ''Mine''\<rparr>
   = (FINISHED, [],
      \<lparr>presets = [(''Default'', [])], current_preset = ''Default'', preset_dropdown = ''Default''\<rparr>)"
  by (simp add: remove_preset_execute_def Let_def)

section \<open>Verification: renaming and undo\<close>

lemma map_of_inj:
  "distinct (map snd rules) \<Longrightarrow> map_of rules a = Some t \<Longrightarrow> map_of rules b = Some t \<Longrightarrow> a = b"
proof -
  assume d: "distinct (map snd rules)" and a: "map_of rules a = Some t" and b: "map_of rules b = Some t"
  have "(a, t) \<in> set rules" "(b, t) \<in> set rules" using a b by (auto dest: map_of_SomeD)
  moreover have "inj_on snd (set rules)" using d by (simp add: distinct_map)
  ultimately show "a = b" using inj_onD[of snd "set rules" "(a, t)" "(b, t)"] by simp
qed

lemma group_by_target_inj:
  assumes "distinct (map snd rules)" "distinct ns"
    and "\<forall>n\<in>set ns. \<forall>t. map_of rules n = Some t \<longrightarrow> t \<notin> set (map fst acc)"
  shows "group_by_target rules ns acc = acc @ singleton_buckets rules ns"
  using assms(2,3)
proof (induction ns arbitrary: acc)
  case Nil
  then show ?case by (simp add: singleton_buckets_def)
next
  case (Cons n ns)
  show ?case
  proof (cases "map_of rules n")
    case None
    then show ?thesis using Cons by (simp add: singleton_buckets_def)
  next
    case (Some t)
    have fresh: "t \<notin> set (map fst acc)" using Cons.prems(2) Some by simp
    then have none: "map_of acc t = None" by (simp add: map_of_eq_None_iff)
    have step: "group_by_target rules (n # ns) acc = group_by_target rules ns (acc @ [(t, [n])])"
      using Some none fresh by (simp add: dict_set_fresh)
    have "\<forall>m\<in>set ns. \<forall>u. map_of rules m = Some u \<longrightarrow> u \<notin> set (map fst (acc @ [(t, [n])]))"
    proof (intro ballI allI impI)
      fix m u assume m: "m \<in> set ns" and u: "map_of rules m = Some u"
      have "u \<notin> set (map fst acc)" using Cons.prems(2) m u by simp
      moreover have "u \<noteq> t"
      proof
        assume "u = t"
        then have "m = n" using map_of_inj[OF assms(1) _ Some, of m] u by simp
        then show False using Cons.prems(1) m by simp
      qed
      ultimately show "u \<notin> set (map fst (acc @ [(t, [n])]))" by simp
    qed
    from Cons.IH[OF _ this] Cons.prems(1) have
      "group_by_target rules ns (acc @ [(t, [n])]) = (acc @ [(t, [n])]) @ singleton_buckets rules ns"
      by simp
    then show ?thesis using step Some by (simp add: singleton_buckets_def)
  qed
qed

lemma apply_singleton_buckets:
  "\<exists>trace'. apply_group_buckets nverts (singleton_buckets rules ns) (c, trace)
              = Inr (rename_found (rename_pairs rules ns) c, trace')"
proof (induction ns arbitrary: c trace)
  case Nil
  then show ?case by (simp add: rename_pairs_def singleton_buckets_def)
next
  case (Cons n ns)
  show ?case
  proof (cases "map_of rules n")
    case None
    then have "rename_pairs rules (n # ns) = rename_pairs rules ns"
      "singleton_buckets rules (n # ns) = singleton_buckets rules ns"
      by (simp_all add: rename_pairs_def singleton_buckets_def)
    then show ?thesis using Cons by simp
  next
    case (Some t)
    have sb: "singleton_buckets rules (n # ns) = (t, [n]) # singleton_buckets rules ns"
      using Some by (simp add: singleton_buckets_def)
    show ?thesis
    proof (cases "n = t")
      case True
      then have rp: "rename_pairs rules (n # ns) = rename_pairs rules ns"
        using Some by (simp add: rename_pairs_def)
      have "apply_group_buckets nverts (singleton_buckets rules (n # ns)) (c, trace)
          = apply_group_buckets nverts (singleton_buckets rules ns) (c, trace)"
        using True sb get_member_Some[of c n] by (auto split: option.splits)
      then show ?thesis using Cons.IH[of c trace] rp by simp
    next
      case False
      then have rp: "rename_pairs rules (n # ns) = (n, t) # rename_pairs rules ns"
        using Some by (simp add: rename_pairs_def)
      show ?thesis
      proof (cases "get_member c n")
        case None
        then show ?thesis using Cons.IH[of c trace] rp sb by simp
      next
        case (Some i)
        then have fi: "fst (c ! i) = n" using get_member_Some by blast
        from Cons.IH[of "set_name c i t" "trace @ [Renaming n t]"]
        show ?thesis using sb rp Some fi False by simp
      qed
    qed
  qed
qed

lemma map_of_rename_pairs:
  "distinct ns \<Longrightarrow> map_of (rename_pairs rules ns) n =
     (if n \<in> set ns then (case map_of rules n of None \<Rightarrow> None | Some t \<Rightarrow> if n = t then None else Some t)
      else None)"
proof (induction ns)
  case Nil
  then show ?case by (simp add: rename_pairs_def)
next
  case (Cons m ns)
  have split: "rename_pairs rules (m # ns)
      = (case map_of rules m of None \<Rightarrow> [] | Some t \<Rightarrow> if m = t then [] else [(m, t)]) @ rename_pairs rules ns"
    by (simp add: rename_pairs_def)
  show ?case using Cons unfolding split
    by (auto split: option.splits simp: map_of_append)
qed

lemma rename_map_rename_pairs:
  "distinct ns \<Longrightarrow> n \<in> set ns \<Longrightarrow> rename_map (rename_pairs rules ns) n = fwd_name rules n"
  by (auto simp: rename_map_def fwd_name_def map_of_rename_pairs split: option.splits)

lemma rename_pairs_set:
  "set (rename_pairs rules ns) = {(n, t). n \<in> set ns \<and> map_of rules n = Some t \<and> n \<noteq> t}"
  by (induction ns) (auto simp: rename_pairs_def split: option.splits if_splits)

lemma rename_pairs_snd_distinct:
  assumes "distinct (map snd rules)" "distinct ns"
  shows "distinct (map snd (rename_pairs rules ns))"
  using assms(2)
proof (induction ns)
  case Nil
  then show ?case by (simp add: rename_pairs_def)
next
  case (Cons m ns)
  have split: "rename_pairs rules (m # ns)
      = (case map_of rules m of None \<Rightarrow> [] | Some t \<Rightarrow> if m = t then [] else [(m, t)]) @ rename_pairs rules ns"
    by (simp add: rename_pairs_def)
  have IH: "distinct (map snd (rename_pairs rules ns))" using Cons by simp
  show ?case
  proof (cases "map_of rules m")
    case None
    then show ?thesis using IH split by simp
  next
    case (Some t)
    have "t \<notin> snd ` set (rename_pairs rules ns)"
    proof
      assume "t \<in> snd ` set (rename_pairs rules ns)"
      then obtain n where "n \<in> set ns" "map_of rules n = Some t"
        unfolding rename_pairs_set by auto
      then have "n = m" using map_of_inj[OF assms(1) _ Some] by simp
      then show False using Cons.prems \<open>n \<in> set ns\<close> by simp
    qed
    then show ?thesis using IH split Some by simp
  qed
qed

lemma rename_pairs_fresh:
  assumes free: "\<forall>(old, new)\<in>set rules.
             (new \<in> set ns \<longrightarrow> old = new) \<and> (old \<in> set ns \<longrightarrow> valid_name new)"
  shows "set (map snd (rename_pairs rules ns)) \<inter> set ns = {}"
    and "set (map snd (rename_pairs rules ns)) \<inter> set (map fst (rename_pairs rules ns)) = {}"
    and "list_all valid_name (map snd (rename_pairs rules ns))"
proof -
  let ?rs = "rename_pairs rules ns"
  have in_rules: "\<And>n t. (n, t) \<in> set ?rs \<Longrightarrow> (n, t) \<in> set rules \<and> n \<in> set ns \<and> n \<noteq> t"
    unfolding rename_pairs_set by (auto dest: map_of_SomeD)
  have news: "\<And>n t. (n, t) \<in> set ?rs \<Longrightarrow> t \<notin> set ns"
    using in_rules free by fastforce
  have olds: "set (map fst ?rs) \<subseteq> set ns"
    using in_rules by auto
  show "set (map snd ?rs) \<inter> set ns = {}" using news by force
  show "set (map snd ?rs) \<inter> set (map fst ?rs) = {}" using news olds by force
  show "list_all valid_name (map snd ?rs)"
    unfolding list_all_iff using in_rules free by fastforce
qed

lemma rename_found_rename_pairs:
  fixes c :: "'a container"
  assumes d: "distinct (names c)" and inj: "distinct (map snd rules)"
    and free: "\<forall>(old, new)\<in>set rules.
             (new \<in> set (names c) \<longrightarrow> old = new) \<and> (old \<in> set (names c) \<longrightarrow> valid_name new)"
  shows "rename_found (rename_pairs rules (names c)) c = map (\<lambda>(n, p). (fwd_name rules n, p)) c"
proof -
  let ?rs = "rename_pairs rules (names c)"
  note fr = rename_pairs_fresh[OF free]
  have "rename_found ?rs c = map (\<lambda>(n, p). (rename_map ?rs n, p)) c"
    by (rule rename_found_fresh[OF d rename_pairs_snd_distinct[OF inj d] fr])
  moreover have "map (\<lambda>(n, p). (rename_map ?rs n, p)) c = map (\<lambda>(n, p). (fwd_name rules n, p)) c"
  proof -
    have "\<And>n p. (n, p) \<in> set c \<Longrightarrow> rename_map ?rs n = fwd_name rules n"
    proof -
      fix n p assume "(n, p) \<in> set c"
      then have "n \<in> set (names c)" by (force simp: names_def)
      then show "rename_map ?rs n = fwd_name rules n" by (rule rename_map_rename_pairs[OF d])
    qed
    then show ?thesis by auto
  qed
  ultimately show ?thesis by simp
qed

lemma apply_rules_groups_renames:
  fixes c :: "wgroup container"
  assumes d: "distinct (names c)" and inj: "distinct (map snd rules)"
    and free: "\<forall>(old, new)\<in>set rules.
             (new \<in> set (names c) \<longrightarrow> old = new) \<and> (old \<in> set (names c) \<longrightarrow> valid_name new)"
  shows "\<exists>trace. apply_rules_groups nverts rules c
           = Inr (map (\<lambda>(n, p). (fwd_name rules n, p)) c, trace)"
proof -
  have "group_by_target rules (names c) [] = singleton_buckets rules (names c)"
    using group_by_target_inj[OF inj d, of "[]"] by simp
  then show ?thesis
    unfolding apply_rules_groups_def
    using apply_singleton_buckets[of nverts rules "names c" c "[]"]
    by (simp add: rename_found_rename_pairs[OF d inj free])
qed





text \<open>
  A run of fresh renames on the bones of an armature: the bones are renamed,
  and the host renames the vertex groups of the objects the armature deforms.
\<close>

lemma rename_found_bones_full:
  assumes "a < length objs" "distinct (names (ob_bones (objs ! a)))" "distinct (map snd rs)"
    "set (map snd rs) \<inter> set (names (ob_bones (objs ! a))) = {}"
    "set (map snd rs) \<inter> set (map fst rs) = {}"
    "list_all valid_name (map snd rs)"
    "distinct (map fst rs)"
    "set (map fst rs) \<subseteq> set (names (ob_bones (objs ! a)))"
  shows "rename_found_bones a rs objs =
     map (\<lambda>ob. if uses_armature ob a
               then ob\<lparr>ob_vertex_groups :=
                      fold (\<lambda>(old, new). rename_first old new) rs (ob_vertex_groups ob)\<rparr>
               else ob)
       (objs[a := (objs ! a)\<lparr>ob_bones := map (\<lambda>(n, p). (rename_map rs n, p)) (ob_bones (objs ! a))\<rparr>])"
  using assms
proof (induction rs arbitrary: objs)
  case Nil
  have "map (\<lambda>(n, p). (rename_map [] n, p)) (ob_bones (objs ! a)) = ob_bones (objs ! a)"
    by (simp add: rename_map_def case_prod_beta)
  then show ?case by (simp add: map_idI)
next
  case (Cons r rs)
  obtain old new where r: "r = (old, new)" by (cases r)
  let ?b = "ob_bones (objs ! a)"
  let ?b1 = "rename1 old new ?b"
  let ?P = "\<lambda>ob. if uses_armature ob a
               then ob\<lparr>ob_vertex_groups := rename_first old new (ob_vertex_groups ob)\<rparr> else ob"
  let ?F = "\<lambda>rs ob. if uses_armature ob a
               then ob\<lparr>ob_vertex_groups :=
                      fold (\<lambda>(old, new). rename_first old new) rs (ob_vertex_groups ob)\<rparr>
               else ob"
  let ?z = "objs[a := (objs ! a)\<lparr>ob_bones := ?b1\<rparr>]"
  let ?o1 = "map ?P ?z"
  have new_fresh: "new \<notin> set (names ?b)" using Cons.prems(4) r by auto
  have new_valid: "valid_name new" using Cons.prems(6) r by simp
  have "old \<in> set (names ?b)" using Cons.prems(8) r by simp
  then obtain i where gm: "get_member ?b old = Some i"
    using get_member_None[of ?b old] by (cases "get_member ?b old") auto
  have i: "i < length ?b" "fst (?b ! i) = old" using get_member_Some[OF gm] by simp_all
  have sb: "set_bone_name objs a i new = ?o1"
    using set_bone_name_fresh[OF Cons.prems(1,2) i new_fresh new_valid]
    by (simp add: propagate_bone_rename_def)
  have step: "rename_found_bones a (r # rs) objs = rename_found_bones a rs ?o1"
    using r gm sb by simp
  have a1: "a < length ?o1" using Cons.prems(1) by simp
  have b1: "ob_bones (?o1 ! a) = ?b1" using Cons.prems(1) by simp
  have d': "distinct (names ?b1)"
    using Cons.prems(2) new_fresh
    by (auto simp: names_rename1 distinct_map inj_on_def)
  have f': "set (map snd rs) \<inter> set (names ?b1) = {}"
    using Cons.prems(3,4) r by (auto simp: names_rename1)
  have o': "set (map fst rs) \<subseteq> set (names ?b1)"
    using Cons.prems(7,8) r by (auto simp: names_rename1)
  have IH: "rename_found_bones a rs ?o1 =
     map (?F rs) (?o1[a := (?o1 ! a)\<lparr>ob_bones := map (\<lambda>(n, p). (rename_map rs n, p)) ?b1\<rparr>])"
    using Cons.IH[of ?o1, unfolded b1, OF a1 d' _ f'] Cons.prems(3,5,6,7) o' by auto
  have new_not_old: "map_of rs new = None"
    using Cons.prems(5) r by (auto simp: map_of_eq_None_iff)
  have B: "map (\<lambda>(n, p). (rename_map rs n, p)) ?b1 = map (\<lambda>(n, p). (rename_map (r # rs) n, p)) ?b"
    using new_not_old r by (auto simp: rename1_def rename_map_def)
  have upd: "?o1[a := (?o1 ! a)\<lparr>ob_bones := map (\<lambda>(n, p). (rename_map rs n, p)) ?b1\<rparr>]
      = map ?P (objs[a := (objs ! a)\<lparr>ob_bones := map (\<lambda>(n, p). (rename_map (r # rs) n, p)) ?b\<rparr>])"
  proof -
    have Pupd: "\<And>y X. ?P (y\<lparr>ob_bones := X\<rparr>) = (?P y)\<lparr>ob_bones := X\<rparr>"
      by (simp add: uses_armature_def)
    have "?o1 ! a = ?P ((objs ! a)\<lparr>ob_bones := ?b1\<rparr>)"
      using Cons.prems(1) by simp
    then have "(?o1 ! a)\<lparr>ob_bones := map (\<lambda>(n, p). (rename_map rs n, p)) ?b1\<rparr>
        = ?P ((objs ! a)\<lparr>ob_bones := map (\<lambda>(n, p). (rename_map (r # rs) n, p)) ?b\<rparr>)"
      by (simp only: Pupd[symmetric] B) simp
    then show ?thesis
      by (simp only: map_update list_update_overwrite)
  qed
  have comp: "\<And>ob. ?F rs (?P ob) = ?F (r # rs) ob"
    using r by (simp add: uses_armature_def)
  show ?case
    unfolding step IH upd map_map comp_def comp by (rule refl)
qed

lemma map_rename_pairs_fwd:
  fixes c :: "'a container"
  assumes "distinct (names c)"
  shows "map (\<lambda>(n, p). (rename_map (rename_pairs rules (names c)) n, p)) c
           = map (\<lambda>(n, p). (fwd_name rules n, p)) c"
proof -
  have "\<And>n p. (n, p) \<in> set c \<Longrightarrow> rename_map (rename_pairs rules (names c)) n = fwd_name rules n"
  proof -
    fix n p assume "(n, p) \<in> set c"
    then have "n \<in> set (names c)" by (force simp: names_def)
    then show "rename_map (rename_pairs rules (names c)) n = fwd_name rules n"
      by (rule rename_map_rename_pairs[OF assms])
  qed
  then show ?thesis by auto
qed

lemma rename_pairs_fst:
  "map fst (rename_pairs rules ns)
     = filter (\<lambda>n. case map_of rules n of None \<Rightarrow> False | Some t \<Rightarrow> n \<noteq> t) ns"
  by (induction ns) (auto simp: rename_pairs_def split: option.splits)

lemma apply_bone_singleton_buckets:
  "\<exists>trace'. apply_bone_buckets a (singleton_buckets rules ns) (objs, trace)
              = Inr (rename_found_bones a (rename_pairs rules ns) objs, trace')"
proof (induction ns arbitrary: objs trace)
  case Nil
  then show ?case by (simp add: rename_pairs_def singleton_buckets_def)
next
  case (Cons n ns)
  show ?case
  proof (cases "map_of rules n")
    case None
    then have "rename_pairs rules (n # ns) = rename_pairs rules ns"
      "singleton_buckets rules (n # ns) = singleton_buckets rules ns"
      by (simp_all add: rename_pairs_def singleton_buckets_def)
    then show ?thesis using Cons by simp
  next
    case (Some t)
    have sb: "singleton_buckets rules (n # ns) = (t, [n]) # singleton_buckets rules ns"
      using Some by (simp add: singleton_buckets_def)
    show ?thesis
    proof (cases "n = t")
      case True
      then have rp: "rename_pairs rules (n # ns) = rename_pairs rules ns"
        using Some by (simp add: rename_pairs_def)
      have "apply_bone_buckets a (singleton_buckets rules (n # ns)) (objs, trace)
          = apply_bone_buckets a (singleton_buckets rules ns) (objs, trace)"
        using True sb get_member_Some[of "ob_bones (objs ! a)" n] by (auto split: option.splits)
      then show ?thesis using Cons.IH[of objs trace] rp by simp
    next
      case False
      then have rp: "rename_pairs rules (n # ns) = (n, t) # rename_pairs rules ns"
        using Some by (simp add: rename_pairs_def)
      show ?thesis
      proof (cases "get_member (ob_bones (objs ! a)) n")
        case None
        then show ?thesis using Cons.IH[of objs trace] rp sb by simp
      next
        case (Some i)
        then have fi: "fst (ob_bones (objs ! a) ! i) = n" using get_member_Some by blast
        from Cons.IH[of "set_bone_name objs a i t" "trace @ [Renaming n t]"]
        show ?thesis using sb rp Some fi False by simp
      qed
    qed
  qed
qed

text \<open>
  Applying a ruleset without merges to the bones of an armature, when the new
  names are free and the host stores them as they are given: the bones get
  their new names, and in every object that the armature deforms the host
  applies the renames of the bones to the vertex groups, one after the other.
\<close>

lemma apply_rules_bones_renames:
  assumes a: "a < length objs"
    and d: "distinct (names (ob_bones (objs ! a)))"
    and inj: "distinct (map snd rules)"
    and free: "\<forall>(old, new)\<in>set rules.
             (new \<in> set (names (ob_bones (objs ! a))) \<longrightarrow> old = new) \<and>
             (old \<in> set (names (ob_bones (objs ! a))) \<longrightarrow> valid_name new)"
  shows "\<exists>trace. apply_rules_bones rules a objs =
     Inr (map (\<lambda>ob. if uses_armature ob a
               then ob\<lparr>ob_vertex_groups :=
                      fold (\<lambda>(old, new). rename_first old new)
                        (rename_pairs rules (names (ob_bones (objs ! a)))) (ob_vertex_groups ob)\<rparr>
               else ob)
       (objs[a := (objs ! a)\<lparr>ob_bones := map (\<lambda>(n, p). (fwd_name rules n, p)) (ob_bones (objs ! a))\<rparr>]),
       trace)"
proof -
  let ?b = "ob_bones (objs ! a)"
  let ?rs = "rename_pairs rules (names ?b)"
  note fr = rename_pairs_fresh[OF free]
  have dn: "distinct (map fst ?rs)" unfolding rename_pairs_fst using d by simp
  have sub: "set (map fst ?rs) \<subseteq> set (names ?b)" unfolding rename_pairs_fst by auto
  have run: "rename_found_bones a ?rs objs =
     map (\<lambda>ob. if uses_armature ob a
               then ob\<lparr>ob_vertex_groups :=
                      fold (\<lambda>(old, new). rename_first old new) ?rs (ob_vertex_groups ob)\<rparr>
               else ob)
       (objs[a := (objs ! a)\<lparr>ob_bones := map (\<lambda>(n, p). (fwd_name rules n, p)) ?b\<rparr>])"
    using rename_found_bones_full[OF a d rename_pairs_snd_distinct[OF inj d] fr dn sub]
    unfolding map_rename_pairs_fwd[OF d] .
  have "group_by_target rules (names ?b) [] = singleton_buckets rules (names ?b)"
    using group_by_target_inj[OF inj d, of "[]"] by simp
  then show ?thesis
    unfolding apply_rules_bones_def
    using apply_bone_singleton_buckets[of a rules "names ?b" objs "[]"]
    by (simp only: run)
qed

lemma reverse_rules_eq:
  "distinct (map snd rules) \<Longrightarrow> reverse_rules rules = map (\<lambda>(old, new). (new, old)) rules"
proof -
  have gen: "\<And>acc. distinct (map fst acc @ map snd rules) \<Longrightarrow>
      fold (\<lambda>(original_name, new_name) reverse. dict_set reverse new_name original_name) rules acc
        = acc @ map (\<lambda>(old, new). (new, old)) rules"
  proof (induction rules)
    case Nil
    then show ?case by simp
  next
    case (Cons r rules)
    obtain old new where r: "r = (old, new)" by (cases r)
    have "new \<notin> set (map fst acc)" using Cons.prems r by auto
    then have "dict_set acc new old = acc @ [(new, old)]" by (rule dict_set_fresh)
    moreover have "distinct (map fst (acc @ [(new, old)]) @ map snd rules)"
      using Cons.prems r by auto
    ultimately show ?case using Cons.IH[of "acc @ [(new, old)]"] r by simp
  qed
  assume "distinct (map snd rules)"
  then show ?thesis unfolding reverse_rules_def using gen[of "[]"] by simp
qed

lemma map_of_reverse_rules:
  assumes "distinct (map snd rules)"
  shows "map_of (reverse_rules rules) t = Some old \<longleftrightarrow> (old, t) \<in> set rules"
proof -
  have d: "distinct (map fst (map (\<lambda>(old, new). (new, old)) rules))"
    using assms by (simp add: comp_def case_prod_beta)
  have "map_of (map (\<lambda>(old, new). (new, old)) rules) t = Some old
      \<longleftrightarrow> (t, old) \<in> set (map (\<lambda>(old, new). (new, old)) rules)"
    using map_of_eq_Some_iff[OF d] by simp
  also have "\<dots> \<longleftrightarrow> (old, t) \<in> set rules" by auto
  finally show ?thesis using reverse_rules_eq[OF assms] by simp
qed

lemma splice_update:
  assumes "k < length c" "length c1 = length c"
  shows "(take k c @ drop k c1)[k := c ! k] = take (Suc k) c @ drop (Suc k) c1"
proof -
  have "drop k c1 = c1 ! k # drop (Suc k) c1" using assms by (simp add: Cons_nth_drop_Suc)
  then have "(take k c @ drop k c1)[k := c ! k] = take k c @ (c ! k # drop (Suc k) c1)"
    using assms by (simp add: list_update_append)
  then show ?thesis using assms by (simp add: take_Suc_conv_app_nth)
qed

lemma undo_loop_restores:
  fixes c c1 :: "'a container"
  assumes len: "length c1 = length c"
    and rest: "\<forall>i<length c. snd (c1 ! i) = snd (c ! i) \<and>
        (case map_of reverse (fst (c1 ! i)) of None \<Rightarrow> fst (c1 ! i) | Some original \<Rightarrow> original) = fst (c ! i)"
    and apart: "\<forall>i<length c. \<forall>j<length c. i \<noteq> j \<longrightarrow> fst (c ! i) \<noteq> fst (c ! j) \<and> fst (c ! i) \<noteq> fst (c1 ! j)"
    and valid: "\<forall>i<length c. valid_name (fst (c ! i))"
    and k: "k \<le> length c"
  shows "undo_loop reverse [k..<length c] (take k c @ drop k c1) = c"
  using k
proof (induction "length c - k" arbitrary: k)
  case 0
  then show ?case using len by simp
next
  case (Suc m)
  then have k: "k < length c" by simp
  let ?cur = "take k c @ drop k c1"
  have upt: "[k..<length c] = k # [Suc k..<length c]" using k by (simp add: upt_conv_Cons)
  have cur_k: "?cur ! k = c1 ! k" using k len by (simp add: nth_append)
  have IH: "undo_loop reverse [Suc k..<length c] (take (Suc k) c @ drop (Suc k) c1) = c"
    using Suc.hyps(1)[of "Suc k"] Suc.hyps(2) k by simp
  have bk: "snd (c1 ! k) = snd (c ! k)"
    "(case map_of reverse (fst (c1 ! k)) of None \<Rightarrow> fst (c1 ! k) | Some original \<Rightarrow> original) = fst (c ! k)"
    using rest k by simp_all
  show ?case
  proof (cases "map_of reverse (fst (c1 ! k))")
    case None
    then have "c1 ! k = c ! k" using bk by (simp add: prod_eq_iff)
    then have "?cur = take (Suc k) c @ drop (Suc k) c1"
      using k len by (simp add: take_Suc_conv_app_nth Cons_nth_drop_Suc[symmetric])
    then show ?thesis using upt None cur_k IH by simp
  next
    case (Some original)
    then have orig: "original = fst (c ! k)" using bk by simp
    have names_cur: "names ?cur = take k (names c) @ drop k (names c1)"
      by (simp add: names_def take_map drop_map)
    have others: "take k (names ?cur) @ drop (Suc k) (names ?cur)
        = take k (names c) @ drop (Suc k) (names c1)"
      using k len by (simp add: names_cur names_def take_map drop_map)
    have "original \<notin> set (take k (names c))"
    proof
      assume "original \<in> set (take k (names c))"
      then obtain j where "j < k" "names c ! j = original"
        using k by (auto simp: in_set_conv_nth names_def)
      then show False using apart k orig by (auto simp: names_def)
    qed
    moreover have "original \<notin> set (drop (Suc k) (names c1))"
    proof
      assume "original \<in> set (drop (Suc k) (names c1))"
      then obtain i where i: "i < length (names c1) - Suc k" "drop (Suc k) (names c1) ! i = original"
        by (auto simp: in_set_conv_nth)
      define j where "j = Suc k + i"
      have j: "Suc k \<le> j" "j < length (names c1)" "original = names c1 ! j"
        using i by (simp_all add: j_def)
      then have "j < length c" "k \<noteq> j" "fst (c1 ! j) = fst (c ! k)"
        using len orig by (simp_all add: names_def)
      then show False using apart k by metis
    qed
    ultimately have "original \<notin> set (take k (names ?cur) @ drop (Suc k) (names ?cur))"
      unfolding others by simp
    moreover have "valid_name original" using valid k orig by simp
    ultimately have "host_name ''Group'' (take k (names ?cur) @ drop (Suc k) (names ?cur)) original = original"
      by (rule host_name_free[rotated])
    then have "set_name ?cur k original = ?cur[k := (original, snd (?cur ! k))]"
      by (simp add: set_name_def)
    moreover have "(original, snd (?cur ! k)) = c ! k" using orig cur_k bk by (simp add: prod_eq_iff)
    ultimately have "set_name ?cur k original = take (Suc k) c @ drop (Suc k) c1"
      using splice_update[OF k len] by simp
    then show ?thesis using upt Some cur_k IH by simp
  qed
qed

lemma set_bone_name_bones:
  assumes "a < length objs" "i < length (ob_bones (objs ! a))" "valid_name new"
    and "new \<notin> set (take i (names (ob_bones (objs ! a))) @ drop (Suc i) (names (ob_bones (objs ! a))))"
  shows "ob_bones (set_bone_name objs a i new ! a)
           = (ob_bones (objs ! a))[i := (new, snd (ob_bones (objs ! a) ! i))]"
proof -
  let ?b = "ob_bones (objs ! a)"
  have t: "take 63 new = new" using assms(3) by (simp add: valid_name_def)
  show ?thesis
  proof (cases "new = fst (?b ! i)")
    case True
    have "take 63 new = fst (?b ! i)" using t True by simp
    then have "set_bone_name objs a i new = objs" by (simp add: set_bone_name_def Let_def)
    moreover have "?b[i := (new, snd (?b ! i))] = ?b" using True by simp
    ultimately show ?thesis by simp
  next
    case False
    have "i < length (names ?b)" using assms(2) by (simp add: names_def)
    then have "names ?b = take i (names ?b) @ names ?b ! i # drop (Suc i) (names ?b)"
      by (rule id_take_nth_drop)
    moreover have "names ?b ! i = fst (?b ! i)" using assms(2) by (simp add: names_def)
    ultimately have "set (names ?b) = insert (fst (?b ! i))
        (set (take i (names ?b) @ drop (Suc i) (names ?b)))"
      by (metis Un_insert_right list.simps(15) set_append)
    then have "new \<notin> set (names ?b)" using assms(4) False by simp
    then have u: "unique_name ''Bone'' (names ?b) new = new"
      using assms(3) by (simp add: unique_name_def valid_name_def)
    show ?thesis
      using False assms(1) by (simp add: set_bone_name_def Let_def t u propagate_bones)
  qed
qed

lemma undo_bones_loop_length [simp]:
  "length (undo_bones_loop reverse a is objs) = length objs"
  by (induction "is" arbitrary: objs) (auto split: option.splits)

lemma undo_bones_loop_restores:
  fixes c c1 :: "bone_data container"
  assumes len: "length c1 = length c"
    and rest: "\<forall>i<length c. snd (c1 ! i) = snd (c ! i) \<and>
        (case map_of reverse (fst (c1 ! i)) of None \<Rightarrow> fst (c1 ! i) | Some original \<Rightarrow> original) = fst (c ! i)"
    and apart: "\<forall>i<length c. \<forall>j<length c. i \<noteq> j \<longrightarrow> fst (c ! i) \<noteq> fst (c ! j) \<and> fst (c ! i) \<noteq> fst (c1 ! j)"
    and valid: "\<forall>i<length c. valid_name (fst (c ! i))"
    and k: "k \<le> length c"
    and a: "a < length objs"
    and cur: "ob_bones (objs ! a) = take k c @ drop k c1"
  shows "ob_bones (undo_bones_loop reverse a [k..<length c] objs ! a) = c"
  using k a cur
proof (induction "length c - k" arbitrary: k objs)
  case 0
  then show ?case using len by simp
next
  case (Suc m)
  then have k: "k < length c" by simp
  let ?cur = "take k c @ drop k c1"
  have upt: "[k..<length c] = k # [Suc k..<length c]" using k by (simp add: upt_conv_Cons)
  have cur_k: "?cur ! k = c1 ! k" using k len by (simp add: nth_append)
  have bk: "snd (c1 ! k) = snd (c ! k)"
    "(case map_of reverse (fst (c1 ! k)) of None \<Rightarrow> fst (c1 ! k) | Some original \<Rightarrow> original) = fst (c ! k)"
    using rest k by simp_all
  have IH: "\<And>objs'. length objs' = length objs \<Longrightarrow>
      ob_bones (objs' ! a) = take (Suc k) c @ drop (Suc k) c1 \<Longrightarrow>
      ob_bones (undo_bones_loop reverse a [Suc k..<length c] objs' ! a) = c"
    using Suc.hyps(1)[of "Suc k"] Suc.hyps(2) Suc.prems(2) k by simp
  show ?case
  proof (cases "map_of reverse (fst (c1 ! k))")
    case None
    then have "c1 ! k = c ! k" using bk by (simp add: prod_eq_iff)
    then have "?cur = take (Suc k) c @ drop (Suc k) c1"
      using k len by (simp add: take_Suc_conv_app_nth Cons_nth_drop_Suc[symmetric])
    then show ?thesis using upt None cur_k IH[of objs] Suc.prems(3) by simp
  next
    case (Some original)
    then have orig: "original = fst (c ! k)" using bk by simp
    have names_cur: "names ?cur = take k (names c) @ drop k (names c1)"
      by (simp add: names_def take_map drop_map)
    have others: "take k (names ?cur) @ drop (Suc k) (names ?cur)
        = take k (names c) @ drop (Suc k) (names c1)"
      using k len by (simp add: names_cur names_def take_map drop_map)
    have "original \<notin> set (take k (names c))"
    proof
      assume "original \<in> set (take k (names c))"
      then obtain j where "j < k" "names c ! j = original"
        using k by (auto simp: in_set_conv_nth names_def)
      then show False using apart k orig by (auto simp: names_def)
    qed
    moreover have "original \<notin> set (drop (Suc k) (names c1))"
    proof
      assume "original \<in> set (drop (Suc k) (names c1))"
      then obtain i where i: "i < length (names c1) - Suc k" "drop (Suc k) (names c1) ! i = original"
        by (auto simp: in_set_conv_nth)
      define j where "j = Suc k + i"
      have j: "Suc k \<le> j" "j < length (names c1)" "original = names c1 ! j"
        using i by (simp_all add: j_def)
      then have "j < length c" "k \<noteq> j" "fst (c1 ! j) = fst (c ! k)"
        using len orig by (simp_all add: names_def)
      then show False using apart k by metis
    qed
    ultimately have fresh: "original \<notin> set (take k (names ?cur) @ drop (Suc k) (names ?cur))"
      unfolding others by simp
    have v: "valid_name original" using valid k orig by simp
    have kc: "k < length (ob_bones (objs ! a))" using k len Suc.prems(3) by simp
    have "ob_bones (set_bone_name objs a k original ! a) = ?cur[k := (original, snd (?cur ! k))]"
      using set_bone_name_bones[OF Suc.prems(2) kc v] fresh Suc.prems(3) by simp
    moreover have "(original, snd (?cur ! k)) = c ! k" using orig cur_k bk by (simp add: prod_eq_iff)
    ultimately have "ob_bones (set_bone_name objs a k original ! a) = take (Suc k) c @ drop (Suc k) c1"
      using splice_update[OF k len] by simp
    from IH[OF _ this] show ?thesis using upt Some cur_k Suc.prems(3) by simp
  qed
qed

lemma undo_conditions:
  fixes c :: "'a container"
  assumes d: "distinct (names c)" and inj: "distinct (map snd rules)"
    and free: "\<forall>(old, new)\<in>set rules. new \<in> set (names c) \<longrightarrow> old = new"
  shows "\<forall>i<length c. snd (map (\<lambda>(n, p). (fwd_name rules n, p)) c ! i) = snd (c ! i) \<and>
        (case map_of (reverse_rules rules) (fst (map (\<lambda>(n, p). (fwd_name rules n, p)) c ! i)) of
           None \<Rightarrow> fst (map (\<lambda>(n, p). (fwd_name rules n, p)) c ! i)
         | Some original \<Rightarrow> original) = fst (c ! i)"
    and "\<forall>i<length c. \<forall>j<length c. i \<noteq> j \<longrightarrow>
           fst (c ! i) \<noteq> fst (c ! j) \<and> fst (c ! i) \<noteq> fst (map (\<lambda>(n, p). (fwd_name rules n, p)) c ! j)"
proof -
  let ?c1 = "map (\<lambda>(n, p). (fwd_name rules n, p)) c"
  let ?rv = "reverse_rules rules"
  have nm: "\<And>i. i < length c \<Longrightarrow> fst (c ! i) \<in> set (names c)"
    by (simp add: names_def)
  have c1_nth: "\<And>i. i < length c \<Longrightarrow> ?c1 ! i = (fwd_name rules (fst (c ! i)), snd (c ! i))"
    by (simp add: case_prod_beta)
  have target_in: "\<And>n t. map_of rules n = Some t \<Longrightarrow> t \<in> set (names c) \<Longrightarrow> n = t"
  proof -
    fix n t assume "map_of rules n = Some t" "t \<in> set (names c)"
    then have "(n, t) \<in> set rules" by (auto dest: map_of_SomeD)
    then show "n = t" using free \<open>t \<in> set (names c)\<close> by auto
  qed
  have bwd: "\<And>n. n \<in> set (names c) \<Longrightarrow>
      (case map_of ?rv (fwd_name rules n) of None \<Rightarrow> fwd_name rules n | Some original \<Rightarrow> original) = n"
  proof -
    fix n assume n: "n \<in> set (names c)"
    show "(case map_of ?rv (fwd_name rules n) of None \<Rightarrow> fwd_name rules n | Some original \<Rightarrow> original) = n"
    proof (cases "map_of rules n")
      case None
      then have f: "fwd_name rules n = n" by (simp add: fwd_name_def)
      show ?thesis
      proof (cases "map_of ?rv n")
        case None
        then show ?thesis using f by simp
      next
        case (Some original)
        then have "(original, n) \<in> set rules" using map_of_reverse_rules[OF inj] by simp
        then have "original = n" using free n by auto
        then show ?thesis using f Some by simp
      qed
    next
      case (Some t)
      then have f: "fwd_name rules n = t" by (simp add: fwd_name_def)
      have "(n, t) \<in> set rules" using Some by (auto dest: map_of_SomeD)
      then have "map_of ?rv t = Some n" using map_of_reverse_rules[OF inj] by simp
      then show ?thesis using f by simp
    qed
  qed
  show "\<forall>i<length c. snd (?c1 ! i) = snd (c ! i) \<and>
        (case map_of ?rv (fst (?c1 ! i)) of None \<Rightarrow> fst (?c1 ! i) | Some original \<Rightarrow> original) = fst (c ! i)"
  proof (intro allI impI)
    fix i assume i: "i < length c"
    have eq: "?c1 ! i = (fwd_name rules (fst (c ! i)), snd (c ! i))" by (rule c1_nth[OF i])
    show "snd (?c1 ! i) = snd (c ! i) \<and>
        (case map_of ?rv (fst (?c1 ! i)) of None \<Rightarrow> fst (?c1 ! i) | Some original \<Rightarrow> original) = fst (c ! i)"
      unfolding eq fst_conv snd_conv using bwd[OF nm[OF i]] by simp
  qed
  show "\<forall>i<length c. \<forall>j<length c. i \<noteq> j \<longrightarrow> fst (c ! i) \<noteq> fst (c ! j) \<and> fst (c ! i) \<noteq> fst (?c1 ! j)"
  proof (intro allI impI)
    fix i j assume i: "i < length c" and j: "j < length c" and ij: "i \<noteq> j"
    have "map fst c ! i \<noteq> map fst c ! j"
      using d i j ij unfolding names_def by (simp only: nth_eq_iff_index_eq length_map not_False_eq_True)
    then have ne: "fst (c ! i) \<noteq> fst (c ! j)" using i j by simp
    have "fst (c ! i) \<noteq> fwd_name rules (fst (c ! j))"
    proof (cases "map_of rules (fst (c ! j))")
      case None
      then show ?thesis using ne by (simp add: fwd_name_def)
    next
      case (Some t)
      show ?thesis
      proof
        assume "fst (c ! i) = fwd_name rules (fst (c ! j))"
        then have "t = fst (c ! i)" using Some by (simp add: fwd_name_def)
        then have "fst (c ! j) = t" using target_in[OF Some] nm[OF i] by simp
        then show False using ne \<open>t = fst (c ! i)\<close> by simp
      qed
    qed
    then show "fst (c ! i) \<noteq> fst (c ! j) \<and> fst (c ! i) \<noteq> fst (?c1 ! j)"
      using ne unfolding c1_nth[OF j] fst_conv by simp
  qed
qed

text \<open>
  Claim C4, as amended. For every container C of vertex groups with distinct
  member names, as the host stores them (not empty, at most 63 bytes), and
  every ruleset R in which no two keys share a value, such that no member of C
  already carries the new name of a rule for a different old name, and the
  new name of every rule for a member of C is a name the host stores as it is
  given (not empty, at most 63 bytes): applying R to C succeeds, and undoing R
  on the result restores every member of C to its original name (and leaves
  its weights as they were). The same holds of the bones of an armature that
  meet these conditions: applying R to them succeeds, and the undo loop on the
  result leaves the armature with its original bones.
\<close>

theorem undo_restores_simple_renames:
  fixes c :: "wgroup container"
  assumes "distinct (names c)" and "list_all valid_name (names c)"
    and "distinct (map snd rules)"
    and "list_all (\<lambda>(old, new). (new \<in> set (names c) \<longrightarrow> old = new) \<and>
                               (old \<in> set (names c) \<longrightarrow> valid_name new)) rules"
    and "armature < length objs"
    and "distinct (names (ob_bones (objs ! armature)))"
    and "list_all valid_name (names (ob_bones (objs ! armature)))"
    and "list_all (\<lambda>(old, new).
           (new \<in> set (names (ob_bones (objs ! armature))) \<longrightarrow> old = new) \<and>
           (old \<in> set (names (ob_bones (objs ! armature))) \<longrightarrow> valid_name new)) rules"
  shows "(\<exists>c1 trace. apply_rules_groups nverts rules c = Inr (c1, trace) \<and> undo_rules rules c1 = c) \<and>
     (\<exists>objs1 trace. apply_rules_bones rules armature objs = Inr (objs1, trace) \<and>
        ob_bones (undo_bones_loop (reverse_rules rules) armature
                    [0..<length (ob_bones (objs1 ! armature))] objs1 ! armature)
          = ob_bones (objs ! armature))"
proof
  let ?c1 = "map (\<lambda>(n, p). (fwd_name rules n, p)) c"
  let ?rv = "reverse_rules rules"
  have free2: "\<forall>(old, new)\<in>set rules.
             (new \<in> set (names c) \<longrightarrow> old = new) \<and> (old \<in> set (names c) \<longrightarrow> valid_name new)"
    using assms(4) by (simp add: list_all_iff)
  then have free: "\<forall>(old, new)\<in>set rules. new \<in> set (names c) \<longrightarrow> old = new"
    by fastforce
  obtain trace where run: "apply_rules_groups nverts rules c = Inr (?c1, trace)"
    using apply_rules_groups_renames[OF assms(1,3) free2] by blast
  have valid: "\<forall>i<length c. valid_name (fst (c ! i))"
    using assms(2) by (simp add: list_all_length names_def)
  note uc = undo_conditions[OF assms(1,3) free]
  have "undo_loop ?rv [0..<length c] (take 0 c @ drop 0 ?c1) = c"
    by (rule undo_loop_restores[OF _ uc valid]) simp_all
  then have "undo_rules rules ?c1 = c" by (simp add: undo_rules_def)
  then show "\<exists>c1 trace. apply_rules_groups nverts rules c = Inr (c1, trace) \<and> undo_rules rules c1 = c"
    using run by blast
next
  let ?b = "ob_bones (objs ! armature)"
  let ?b1 = "map (\<lambda>(n, p). (fwd_name rules n, p)) ?b"
  let ?rv = "reverse_rules rules"
  have free2: "\<forall>(old, new)\<in>set rules.
             (new \<in> set (names ?b) \<longrightarrow> old = new) \<and> (old \<in> set (names ?b) \<longrightarrow> valid_name new)"
    using assms(8) by (simp add: list_all_iff)
  then have free: "\<forall>(old, new)\<in>set rules. new \<in> set (names ?b) \<longrightarrow> old = new"
    by fastforce
  obtain objs1 trace where run: "apply_rules_bones rules armature objs = Inr (objs1, trace)"
    and o1: "objs1 = map (\<lambda>ob. if uses_armature ob armature
               then ob\<lparr>ob_vertex_groups :=
                      fold (\<lambda>(old, new). rename_first old new)
                        (rename_pairs rules (names ?b)) (ob_vertex_groups ob)\<rparr>
               else ob)
       (objs[armature := (objs ! armature)\<lparr>ob_bones := ?b1\<rparr>])"
    using apply_rules_bones_renames[OF assms(5,6,3) free2] by blast
  have a1: "armature < length objs1" using assms(5) by (simp add: o1)
  have b1: "ob_bones (objs1 ! armature) = ?b1" using assms(5) by (simp add: o1)
  have valid: "\<forall>i<length ?b. valid_name (fst (?b ! i))"
    using assms(7) by (simp add: list_all_length names_def)
  note uc = undo_conditions[OF assms(6,3) free]
  have "ob_bones (undo_bones_loop ?rv armature [0..<length ?b] objs1 ! armature) = ?b"
    by (rule undo_bones_loop_restores[OF _ uc valid _ a1]) (simp_all add: b1)
  then show "\<exists>objs1 trace. apply_rules_bones rules armature objs = Inr (objs1, trace) \<and>
        ob_bones (undo_bones_loop ?rv armature [0..<length (ob_bones (objs1 ! armature))] objs1 ! armature) = ?b"
    using run b1 by auto
qed

text \<open>
  The hypotheses of C4 hold for the groups Arm, Leg, b, for an armature with
  the bones Arm and Leg, and the rules Arm to UpperArm, Leg to Leg.
\<close>

theorem undo_restores_simple_renames_witness:
  "distinct (names [(''Arm'', [(0::nat, 1/2::real)]), (''Leg'', []), (''b'', [(1, 1)])]) \<and>
   list_all valid_name (names [(''Arm'', [(0::nat, 1/2::real)]), (''Leg'', []), (''b'', [(1, 1)])]) \<and>
   distinct (map snd [(''Arm'', ''UpperArm''), (''Leg'', ''Leg'')]) \<and>
   list_all (\<lambda>(old, new).
        (new \<in> set (names [(''Arm'', [(0::nat, 1/2::real)]), (''Leg'', []), (''b'', [(1, 1)])]) \<longrightarrow> old = new) \<and>
        (old \<in> set (names [(''Arm'', [(0::nat, 1/2::real)]), (''Leg'', []), (''b'', [(1, 1)])]) \<longrightarrow> valid_name new))
     [(''Arm'', ''UpperArm''), (''Leg'', ''Leg'')] \<and>
   (0::nat) < length [armature_object ''Rig'' [''Arm'', ''Leg'']] \<and>
   distinct (names (ob_bones ([armature_object ''Rig'' [''Arm'', ''Leg'']] ! 0))) \<and>
   list_all valid_name (names (ob_bones ([armature_object ''Rig'' [''Arm'', ''Leg'']] ! 0))) \<and>
   list_all (\<lambda>(old, new).
        (new \<in> set (names (ob_bones ([armature_object ''Rig'' [''Arm'', ''Leg'']] ! 0))) \<longrightarrow> old = new) \<and>
        (old \<in> set (names (ob_bones ([armature_object ''Rig'' [''Arm'', ''Leg'']] ! 0))) \<longrightarrow> valid_name new))
     [(''Arm'', ''UpperArm''), (''Leg'', ''Leg'')] \<and>
   (\<exists>c1 trace. apply_rules_groups 2 [(''Arm'', ''UpperArm''), (''Leg'', ''Leg'')]
         [(''Arm'', [(0, 1/2)]), (''Leg'', []), (''b'', [(1, 1)])] = Inr (c1, trace)
      \<and> undo_rules [(''Arm'', ''UpperArm''), (''Leg'', ''Leg'')] c1
          = [(''Arm'', [(0, 1/2)]), (''Leg'', []), (''b'', [(1, 1)])]) \<and>
   (\<exists>objs1 trace. apply_rules_bones [(''Arm'', ''UpperArm''), (''Leg'', ''Leg'')] 0
         [armature_object ''Rig'' [''Arm'', ''Leg'']] = Inr (objs1, trace) \<and>
      ob_bones (undo_bones_loop (reverse_rules [(''Arm'', ''UpperArm''), (''Leg'', ''Leg'')]) 0
                  [0..<length (ob_bones (objs1 ! 0))] objs1 ! 0)
        = ob_bones ([armature_object ''Rig'' [''Arm'', ''Leg'']] ! 0))"
proof -
  let ?c = "[(''Arm'', [(0::nat, 1/2::real)]), (''Leg'', []), (''b'', [(1, 1)])]"
  let ?r = "[(''Arm'', ''UpperArm''), (''Leg'', ''Leg'')]"
  let ?o = "[armature_object ''Rig'' [''Arm'', ''Leg'']]"
  have d: "distinct (names ?c)" by (simp add: names_def)
  have v: "list_all valid_name (names ?c)" by (simp add: names_def valid_name_def)
  have i: "distinct (map snd ?r)" by simp
  have f: "list_all (\<lambda>(old, new). (new \<in> set (names ?c) \<longrightarrow> old = new) \<and>
                                  (old \<in> set (names ?c) \<longrightarrow> valid_name new)) ?r"
    by (simp add: names_def valid_name_def)
  have a: "(0::nat) < length ?o" by simp
  have db: "distinct (names (ob_bones (?o ! 0)))" by (simp add: names_def armature_object_def)
  have vb: "list_all valid_name (names (ob_bones (?o ! 0)))"
    by (simp add: names_def armature_object_def valid_name_def)
  have fb: "list_all (\<lambda>(old, new).
        (new \<in> set (names (ob_bones (?o ! 0))) \<longrightarrow> old = new) \<and>
        (old \<in> set (names (ob_bones (?o ! 0))) \<longrightarrow> valid_name new)) ?r"
    by (simp add: names_def armature_object_def valid_name_def)
  note inst = undo_restores_simple_renames[OF d v i f a db vb fb, of 2]
  show ?thesis
    by (intro conjI) (rule d v i f a db vb fb inst[THEN conjunct1] inst[THEN conjunct2])+
qed

text \<open>
  Claim C4 as stated fails in two ways. The ruleset a to b has no merge;
  applied to a container whose only group is called b it renames nothing, and
  undo then renames that group to a. The ruleset that sends a to a name of 64
  bytes has no merge either; applied to a container whose only group is
  called a, the host stores the first 63 bytes of the new name, and undo,
  which looks for the name of 64 bytes, leaves the group under that name.
\<close>

theorem undo_renames_untouched_counterexample:
  "apply_rules_groups 1 [(''a'', ''b'')] [(''b'', [(0, 1)])] = Inr ([(''b'', [(0, 1)])], []) \<and>
   undo_rules [(''a'', ''b'')] [(''b'', [(0::nat, 1::real)])] = [(''a'', [(0, 1)])] \<and>
   apply_rules_groups 1 [(''a'', replicate 64 (CHR ''b''))] [(''a'', [(0, 1)])]
     = Inr ([(replicate 63 (CHR ''b''), [(0, 1)])], [Renaming ''a'' (replicate 64 (CHR ''b''))]) \<and>
   undo_rules [(''a'', replicate 64 (CHR ''b''))] [(replicate 63 (CHR ''b''), [(0::nat, 1::real)])]
     = [(replicate 63 (CHR ''b''), [(0, 1)])]"
  by code_simp

section \<open>Verification: merging and normalization\<close>


lemma keys_dict_set: "set (map fst (dict_set d k v)) = insert k (set (map fst d))"
  by (induction d) force+







lemma weight_absent: "v \<notin> set (map fst g) \<Longrightarrow> weight_or_zero g v = 0"
  by (simp add: weight_or_zero_def map_of_eq_None_iff[THEN iffD2])





lemma set_dict_set: "set (dict_set d k v) \<subseteq> insert (k, v) (set d)"
  by (induction d k v rule: dict_set.induct) auto





























lemma merge_vertex_groups_marks:
  "srcs \<noteq> [] \<Longrightarrow> merge_vertex_groups nverts c t srcs = Inr (c', marks) \<Longrightarrow> marks = [NormalizationPass]"
  by (auto simp: merge_vertex_groups_def split: sum.splits)

lemma apply_group_buckets_marks:
  "apply_group_buckets nverts bs (c, trace) = Inr (c', trace') \<Longrightarrow>
   filter is_merge_mark trace'
     = filter is_merge_mark trace
       @ concat (map (\<lambda>(t, srcs). [Merging t srcs, NormalizationPass]) (filter is_merge_bucket bs))"
proof (induction bs arbitrary: c trace)
  case Nil
  then show ?case by simp
next
  case (Cons b bs)
  obtain t srcs where b: "b = (t, srcs)" by (cases b)
  show ?case
  proof (cases "length srcs > 1")
    case True
    then have ne: "srcs \<noteq> []" by auto
    from Cons.prems b True obtain c1 marks where
      m: "merge_vertex_groups nverts c t srcs = Inr (c1, marks)"
      and rest: "apply_group_buckets nverts bs (c1, trace @ [Merging t srcs] @ marks) = Inr (c', trace')"
      by (auto split: sum.splits)
    have marks: "marks = [NormalizationPass]" by (rule merge_vertex_groups_marks[OF ne m])
    from Cons.IH[OF rest] show ?thesis
      using b True marks by (simp add: is_merge_bucket_def is_merge_mark_def)
  next
    case False
    from Cons.prems b False have
      "(\<exists>c1. apply_group_buckets nverts bs (c1, trace) = Inr (c', trace')) \<or>
       (\<exists>c1 old. apply_group_buckets nverts bs (c1, trace @ [Renaming old t]) = Inr (c', trace'))"
      by (auto split: list.splits option.splits if_splits sum.splits)
    then show ?thesis
    proof
      assume "\<exists>c1. apply_group_buckets nverts bs (c1, trace) = Inr (c', trace')"
      then obtain c1 where "apply_group_buckets nverts bs (c1, trace) = Inr (c', trace')" by blast
      from Cons.IH[OF this] show ?thesis using b False by (simp add: is_merge_bucket_def)
    next
      assume "\<exists>c1 old. apply_group_buckets nverts bs (c1, trace @ [Renaming old t]) = Inr (c', trace')"
      then obtain c1 old where "apply_group_buckets nverts bs (c1, trace @ [Renaming old t]) = Inr (c', trace')"
        by blast
      from Cons.IH[OF this] show ?thesis
        using b False by (simp add: is_merge_bucket_def is_merge_mark_def)
    qed
  qed
qed

lemma count_list_filter: "count_list xs x = length (filter (\<lambda>y. y = x) xs)"
  by (induction xs) auto

lemma count_marks:
  "length (filter (\<lambda>y. y = NormalizationPass)
      (concat (map (\<lambda>(t, srcs). [Merging t srcs, NormalizationPass]) bs))) = length bs"
  by (induction bs) auto

text \<open>
  Claim C1, as amended. The normalization pass is part of
  \<open>merge_vertex_groups\<close>: in every successful apply it runs once for every
  merged bucket, after that merge and before any later merge of the call, so
  its number of runs is the number of merges of the call (none in a call
  without merges).
\<close>

theorem normalization_runs_once_per_merge:
  assumes "apply_rules_groups nverts rules c = Inr (c', trace)"
  shows "filter is_merge_mark trace
           = concat (map (\<lambda>(t, srcs). [Merging t srcs, NormalizationPass])
               (filter is_merge_bucket (group_by_target rules (names c) []))) \<and>
         count_list trace NormalizationPass
           = length (filter is_merge_bucket (group_by_target rules (names c) []))"
proof -
  let ?bs = "filter is_merge_bucket (group_by_target rules (names c) [])"
  have f: "filter is_merge_mark trace
      = concat (map (\<lambda>(t, srcs). [Merging t srcs, NormalizationPass]) ?bs)"
    using apply_group_buckets_marks[of nverts _ c "[]" c' trace] assms
    by (simp add: apply_rules_groups_def)
  have "count_list trace NormalizationPass
      = length (filter (\<lambda>y. y = NormalizationPass) (filter is_merge_mark trace))"
    by (simp add: count_list_filter is_merge_mark_def conj_commute cong: conj_cong)
  then have "count_list trace NormalizationPass = length ?bs"
    unfolding f count_marks .
  then show ?thesis using f by simp
qed

text \<open>C1 at an apply with one merge and one rename: one pass, before the rename.\<close>

theorem normalization_runs_once_per_merge_witness:
  "apply_rules_groups 1 [(''A'', ''T''), (''B'', ''T''), (''C'', ''D'')]
      [(''A'', [(0, 6/10)]), (''B'', [(0, 5/10)]), (''C'', [(0, 1/10)])]
     = Inr ([(''D'', [(0, (1/10) / (11/10))]), (''T'', [(0, 1 / (11/10))])],
            [Merging ''T'' [''A'', ''B''], NormalizationPass, Renaming ''C'' ''D'']) \<and>
   count_list [Merging ''T'' [''A'', ''B''], NormalizationPass, Renaming ''C'' ''D''] NormalizationPass
     = length (filter is_merge_bucket
         (group_by_target [(''A'', ''T''), (''B'', ''T''), (''C'', ''D'')]
            (names [(''A'', [(0::nat, 6/10::real)]), (''B'', [(0, 5/10)]), (''C'', [(0, 1/10)])]) []))"
proof -
  have run: "apply_rules_groups 1 [(''A'', ''T''), (''B'', ''T''), (''C'', ''D'')]
      [(''A'', [(0, 6/10)]), (''B'', [(0, 5/10)]), (''C'', [(0, 1/10)])]
     = Inr ([(''D'', [(0, (1/10) / (11/10))]), (''T'', [(0, 1 / (11/10))])],
            [Merging ''T'' [''A'', ''B''], NormalizationPass, Renaming ''C'' ''D''])"
    by code_simp
  from normalization_runs_once_per_merge[OF run, THEN conjunct2] run show ?thesis by simp
qed

text \<open>
  Claim C1 as stated fails: an apply with two merges runs the normalization
  pass twice, the first time before the second merge.
\<close>

theorem normalization_twice_counterexample:
  "apply_rules_groups 1 [(''A'', ''T''), (''B'', ''T''), (''C'', ''U''), (''D'', ''U'')]
      [(''A'', [(0, 6/10)]), (''B'', [(0, 6/10)]), (''C'', [(0, 6/10)]), (''D'', [(0, 6/10)])]
    = Inr ([(''T'', [(0, 5/11)]), (''U'', [(0, 6/11)])],
           [Merging ''T'' [''A'', ''B''], NormalizationPass, Merging ''U'' [''C'', ''D''], NormalizationPass])"
  by code_simp

section \<open>Verification: the synchronization coordinator\<close>

lemma get_armatures_loop_inv:
  assumes "\<forall>(k, l)\<in>set acc. link_of objs k = Some l"
  shows "(\<forall>(k, l)\<in>set (get_armatures_loop objs meshes acc). link_of objs k = Some l) \<and>
         set (map fst (get_armatures_loop objs meshes acc))
           = set (map fst acc) \<union> {m \<in> set meshes. link_of objs m \<noteq> None}"
  using assms
proof (induction meshes arbitrary: acc)
  case Nil
  then show ?case by simp
next
  case (Cons mesh rest)
  show ?case
  proof (cases "link_of objs mesh")
    case None
    then have "get_armatures_loop objs (mesh # rest) acc = get_armatures_loop objs rest acc"
      by (auto simp: link_of_def Let_def split: if_splits)
    then show ?thesis using Cons.IH[OF Cons.prems] None by auto
  next
    case (Some l)
    then have step: "get_armatures_loop objs (mesh # rest) acc
        = get_armatures_loop objs rest (dict_set acc mesh l)"
      by (auto simp: link_of_def Let_def split: if_splits)
    have inv: "\<forall>(k, l)\<in>set (dict_set acc mesh l). link_of objs k = Some l"
      using Cons.prems Some set_dict_set[of acc mesh l] by auto
    have keys: "fst ` set (dict_set acc mesh l) = insert mesh (fst ` set acc)"
      using keys_dict_set[of acc mesh l] by simp
    have IH: "(\<forall>(k, l)\<in>set (get_armatures_loop objs rest (dict_set acc mesh l)). link_of objs k = Some l) \<and>
         fst ` set (get_armatures_loop objs rest (dict_set acc mesh l))
           = insert mesh (fst ` set acc) \<union> {m \<in> set rest. link_of objs m \<noteq> None}"
      using Cons.IH[OF inv] keys by simp
    have "insert mesh (fst ` set acc) \<union> {m \<in> set rest. link_of objs m \<noteq> None}
        = fst ` set acc \<union> {m \<in> set (mesh # rest). link_of objs m \<noteq> None}"
      using Some by auto
    then show ?thesis unfolding step using IH by simp
  qed
qed

lemma multiple_set:
  "set (meshes_with_multiple_armatures objs meshes)
     = {m \<in> set meshes. length (armatures_of_mesh objs m) > 1}"
proof -
  let ?d = "get_armatures_from_meshes objs meshes"
  have inv: "\<forall>(k, l)\<in>set ?d. link_of objs k = Some l"
    and keys: "set (map fst ?d) = {m \<in> set meshes. link_of objs m \<noteq> None}"
    using get_armatures_loop_inv[of "[]" objs meshes] by (simp_all add: get_armatures_from_meshes_def)
  have sev: "\<And>m. (\<exists>l. link_of objs m = Some l \<and> is_Several l) \<longleftrightarrow> length (armatures_of_mesh objs m) > 1"
    by (auto simp: link_of_def Let_def is_Several_def split: if_splits)
  show ?thesis
  proof (intro equalityI subsetI)
    fix m assume "m \<in> set (meshes_with_multiple_armatures objs meshes)"
    then obtain l where ml: "(m, l) \<in> set ?d" "is_Several l"
      by (auto simp: meshes_with_multiple_armatures_def)
    then have "link_of objs m = Some l" using inv by auto
    moreover have "m \<in> set (map fst ?d)" using ml(1) by force
    ultimately show "m \<in> {m \<in> set meshes. length (armatures_of_mesh objs m) > 1}"
      using keys ml(2) sev by auto
  next
    fix m assume "m \<in> {m \<in> set meshes. length (armatures_of_mesh objs m) > 1}"
    then have m: "m \<in> set meshes" "length (armatures_of_mesh objs m) > 1" by simp_all
    then obtain l where l: "link_of objs m = Some l" "is_Several l" using sev by blast
    then have "m \<in> set (map fst ?d)" using keys m by simp
    then obtain l' where "(m, l') \<in> set ?d" by auto
    moreover from this have "l' = l" using inv l by auto
    ultimately show "m \<in> set (meshes_with_multiple_armatures objs meshes)"
      using l(2) by (force simp: meshes_with_multiple_armatures_def)
  qed
qed

text \<open>
  Claim C7, as amended. For the three synchronized operations on meshes
  (renaming, undoing and mirroring vertex groups): if a selected mesh has more
  than one armature, the operation is cancelled with one error report that
  names exactly the selected meshes with more than one armature, and the scene
  is returned unchanged, so no container is mutated.
\<close>

theorem ambiguous_mesh_rejects_batch:
  assumes "sync_group_bone sc"
    and "mesh \<in> set (selected_objects sc)"
    and "ob_type (scene_objects sc ! mesh) = MESH"
    and "length (armatures_of_mesh (scene_objects sc) mesh) > 1"
  shows
    "set (meshes_with_multiple_armatures (scene_objects sc) (selected_of_type sc MESH))
        = {m \<in> set (selected_objects sc).
            ob_type (scene_objects sc ! m) = MESH \<and> length (armatures_of_mesh (scene_objects sc) m) > 1} \<and>
     rename_vertex_groups_execute st sc
        = Inr (CANCELLED,
            [(ERROR, ''Meshes with multiple armatures detected: ''
                @ join '', '' (map (\<lambda>m. ob_name (scene_objects sc ! m))
                    (meshes_with_multiple_armatures (scene_objects sc) (selected_of_type sc MESH)))
                @ ''. Cannot synchronize.'')], sc) \<and>
     undo_vertex_group_rename_execute st sc = rename_vertex_groups_execute st sc \<and>
     quick_mirror_vertex_groups_execute sc = rename_vertex_groups_execute st sc"
proof -
  let ?objs = "scene_objects sc"
  let ?sel = "selected_of_type sc MESH"
  let ?amb = "meshes_with_multiple_armatures ?objs ?sel"
  have in_sel: "mesh \<in> set ?sel" using assms(2,3) by (simp add: selected_of_type_def)
  then have sel_ne: "?sel \<noteq> []" by auto
  have amb_set: "set ?amb = {m \<in> set (selected_objects sc).
          ob_type (?objs ! m) = MESH \<and> length (armatures_of_mesh ?objs m) > 1}"
    unfolding multiple_set by (auto simp: selected_of_type_def)
  have "mesh \<in> set ?amb" unfolding multiple_set using in_sel assms(4) by simp
  then have amb_ne: "?amb \<noteq> []" by auto
  have r1: "rename_vertex_groups_execute st sc
      = Inr (CANCELLED, [multiple_armatures_report ?objs ?amb], sc)"
    using sel_ne amb_ne assms(1) by (simp add: rename_vertex_groups_execute_def Let_def)
  have r2: "undo_vertex_group_rename_execute st sc
      = Inr (CANCELLED, [multiple_armatures_report ?objs ?amb], sc)"
    using sel_ne amb_ne assms(1) by (simp add: undo_vertex_group_rename_execute_def Let_def)
  have r3: "quick_mirror_vertex_groups_execute sc
      = Inr (CANCELLED, [multiple_armatures_report ?objs ?amb], sc)"
    using sel_ne amb_ne assms(1) by (simp add: quick_mirror_vertex_groups_execute_def Let_def)
  show ?thesis
    apply (intro conjI)
    subgoal by (rule amb_set)
    subgoal using r1 by (simp add: multiple_armatures_report_def)
    subgoal using r1 r2 by simp
    subgoal using r1 r3 by simp
    done
qed

text \<open>
  C7 at the meshes M (one armature) and M2 (two armatures), both selected: the
  batch is rejected, the report names M2, and the scene is as it was.
\<close>

theorem ambiguous_mesh_rejects_batch_witness:
  "sync_group_bone (two_armature_scene [0, 1]) \<and>
   1 \<in> set (selected_objects (two_armature_scene [0, 1])) \<and>
   ob_type (scene_objects (two_armature_scene [0, 1]) ! 1) = MESH \<and>
   length (armatures_of_mesh (scene_objects (two_armature_scene [0, 1])) 1) > 1 \<and>
   rename_vertex_groups_execute arm_store (two_armature_scene [0, 1])
     = Inr (CANCELLED,
         [(ERROR, ''Meshes with multiple armatures detected: M2. Cannot synchronize.'')],
         two_armature_scene [0, 1]) \<and>
   undo_vertex_group_rename_execute arm_store (two_armature_scene [0, 1])
     = Inr (CANCELLED,
         [(ERROR, ''Meshes with multiple armatures detected: M2. Cannot synchronize.'')],
         two_armature_scene [0, 1]) \<and>
   quick_mirror_vertex_groups_execute (two_armature_scene [0, 1])
     = Inr (CANCELLED,
         [(ERROR, ''Meshes with multiple armatures detected: M2. Cannot synchronize.'')],
         two_armature_scene [0, 1])"
proof -
  let ?sc = "two_armature_scene [0, 1]"
  have h1: "sync_group_bone ?sc" by (simp add: two_armature_scene_def)
  have h2: "1 \<in> set (selected_objects ?sc)" by (simp add: two_armature_scene_def)
  have h3: "ob_type (scene_objects ?sc ! 1) = MESH"
    by (simp add: two_armature_scene_def mesh_object_def)
  have h4: "length (armatures_of_mesh (scene_objects ?sc) 1) > 1" by code_simp
  have amb: "meshes_with_multiple_armatures (scene_objects ?sc) (selected_of_type ?sc MESH) = [1]"
    by code_simp
  have nm: "ob_name (scene_objects ?sc ! Suc 0) = ''M2''"
    by (simp add: two_armature_scene_def mesh_object_def)
  have msg: "''Meshes with multiple armatures detected: ''
                @ join '', '' (map (\<lambda>m. ob_name (scene_objects ?sc ! m)) [1])
                @ ''. Cannot synchronize.''
      = ''Meshes with multiple armatures detected: M2. Cannot synchronize.''"
    by code_simp
  note T = ambiguous_mesh_rejects_batch[OF h1 h2 h3 h4, of arm_store]
  have r: "rename_vertex_groups_execute arm_store ?sc
     = Inr (CANCELLED, [(ERROR, ''Meshes with multiple armatures detected: M2. Cannot synchronize.'')], ?sc)"
    using T[THEN conjunct2, THEN conjunct1] unfolding amb msg .
  show ?thesis
    using h1 h2 h3 h4 r T[THEN conjunct2, THEN conjunct2] by simp
qed

text \<open>
  Claim C7 as stated fails for armatures: with synchronization enabled, the
  bones of a selected armature that deforms two meshes are renamed, and the
  operation finishes without an error. The host renames the vertex groups of
  the two meshes with the bone.
\<close>

theorem armature_with_two_meshes_counterexample:
  "rename_bones_execute arm_store
     \<lparr>scene_objects =
        [armature_object ''S'' [''Arm''],
         mesh_object ''M'' [armature_modifier 0] [(''Arm'', [(0, 1)])] 1,
         mesh_object ''M2'' [armature_modifier 0] [(''Arm'', [(0, 1)])] 1],
      selected_objects = [0], sync_group_bone = True\<rparr>
   = Inr (FINISHED, [],
     \<lparr>scene_objects =
        [armature_object ''S'' [''UpperArm''],
         mesh_object ''M'' [armature_modifier 0] [(''UpperArm'', [(0, 1)])] 1,
         mesh_object ''M2'' [armature_modifier 0] [(''UpperArm'', [(0, 1)])] 1],
      selected_objects = [0], sync_group_bone = True\<rparr>)"
  by code_simp









text \<open>
  A ruleset that merges two bones: \<open>merge_bones\<close> raises \<open>TypeError\<close> at its
  call of \<open>edit_bones.remove\<close>, from the mesh (after the vertex groups have
  been renamed) and from the armature.
\<close>

lemma bone_merge_raises:
  "rename_vertex_groups_execute merge_store (body_scene [0]) = Inl TypeError \<and>
   rename_bones_execute merge_store (body_scene [1]) = Inl TypeError"
  by code_simp

end
